theory Spec2Isabelle
  imports Main "HOL-Library.Word" "HOL-Library.Signed_Division"
begin

section \<open>The circular buffer of \<^verbatim>\<open>circular_buffer.c\<close>\<close>

text \<open>
  The library stores \<^verbatim>\<open>void *\<close> elements in a heap block of \<^verbatim>\<open>maxlen\<close> slots and keeps
  three C \<^verbatim>\<open>int\<close>s beside it: \<^verbatim>\<open>head\<close> (newest element), \<^verbatim>\<open>tail\<close> (oldest element) and
  \<^verbatim>\<open>len\<close> (number of elements held).

  Every C function is embedded as a HOL function of the same name. A pointer argument that
  may be \<^verbatim>\<open>NULL\<close> is an \<open>option\<close> (\<open>None\<close> is \<^verbatim>\<open>NULL\<close>); the object behind it is passed in and
  handed back. A call returns \<open>None\<close> where C leaves the behaviour undefined (an access
  outside an array, a signed overflow, a remainder by zero); otherwise it returns
  \<open>Some (r, \<dots>)\<close> with \<open>r = Inr v\<close> for the returned \<^verbatim>\<open>int\<close> \<open>v\<close> and \<open>r = Inl e\<close> for the
  return value \<^verbatim>\<open>-1\<close>, where \<open>e\<close> says what happened to \<^verbatim>\<open>errno\<close>.
\<close>

subsection \<open>C integers and arrays\<close>

text \<open>
  The model fixes the LP64 data model: \<^verbatim>\<open>int\<close> has 32 bits, \<^verbatim>\<open>size_t\<close> and pointers have 64.
  Integers are mathematical integers; each addition of the source is checked against the
  range of \<^verbatim>\<open>int\<close>, and \<^verbatim>\<open>%\<close> is the truncating remainder of C.
\<close>

definition INT_MAX :: int where
  "INT_MAX = 2147483647"

definition INT_MIN :: int where
  "INT_MIN = - 2147483648"

definition c_int :: "int \<Rightarrow> bool" where
  "c_int x \<longleftrightarrow> INT_MIN \<le> x \<and> x \<le> INT_MAX"

definition c_add :: "int \<Rightarrow> int \<Rightarrow> int option" where
  "c_add x y = (if c_int (x + y) then Some (x + y) else None)"

definition c_rem :: "int \<Rightarrow> int \<Rightarrow> int option" where
  "c_rem x y = (if y = 0 \<or> (x = INT_MIN \<and> y = - 1) then None else Some (x smod y))"

text \<open>\<^verbatim>\<open>(x + 1) % m\<close>, the step of an index around the ring.\<close>

definition next_index :: "int \<Rightarrow> int \<Rightarrow> int option" where
  "next_index x m = (case c_add x 1 of None \<Rightarrow> None | Some s \<Rightarrow> c_rem s m)"

text \<open>Reading and writing \<^verbatim>\<open>a[i]\<close>: defined inside the array only.\<close>

definition load :: "'a list \<Rightarrow> int \<Rightarrow> 'a option" where
  "load a i = (if 0 \<le> i \<and> i < int (length a) then Some (a ! nat i) else None)"

definition store :: "'a list \<Rightarrow> int \<Rightarrow> 'a \<Rightarrow> 'a list option" where
  "store a i v = (if 0 \<le> i \<and> i < int (length a) then Some (a[nat i := v]) else None)"

subsection \<open>Pointer values as bytes\<close>

text \<open>
  The bulk readers clear the caller's array with \<^verbatim>\<open>memset\<close>, which counts bytes, so a
  \<^verbatim>\<open>void *\<close> value is modelled by its object representation: \<^verbatim>\<open>sizeof(void *)\<close> bytes.
  \<open>memset_bytes a c n\<close> overwrites the first \<open>n\<close> bytes of the array \<open>a\<close> with \<open>c\<close>.
\<close>

type_synonym byte = "8 word"

type_synonym ptr = "byte list"

definition sizeof_ptr :: int where
  "sizeof_ptr = 8"

definition null_ptr :: ptr where
  "null_ptr = replicate (nat sizeof_ptr) 0"

fun memset_bytes :: "ptr list \<Rightarrow> byte \<Rightarrow> nat \<Rightarrow> ptr list" where
  "memset_bytes [] c n = []"
| "memset_bytes (p # ps) c n =
     (replicate (min n (length p)) c @ drop n p) # memset_bytes ps c (n - length p)"

definition memset :: "ptr list \<Rightarrow> byte \<Rightarrow> int \<Rightarrow> ptr list option" where
  "memset a c n =
     (if 0 \<le> n \<and> n \<le> int (sum_list (map length a)) then Some (memset_bytes a c (nat n))
      else None)"

subsection \<open>The allocator\<close>

text \<open>
  \<^verbatim>\<open>malloc\<close> belongs to the environment: \<open>grants h n\<close> says whether the heap \<open>h\<close> hands out a
  block of \<open>n\<close> bytes, and \<open>junk h\<close> is what the fresh block holds, slot by slot (the block
  is not cleared). No request above \<^verbatim>\<open>PTRDIFF_MAX\<close> is granted. A block of zero bytes and the
  \<^verbatim>\<open>NULL\<close> block are both the empty list of slots: nothing in them can be accessed.
\<close>

record 'a heap =
  grants :: "int \<Rightarrow> bool"
  junk :: "nat \<Rightarrow> 'a"

definition SIZE_MOD :: int where
  "SIZE_MOD = 2 ^ 64"

definition PTRDIFF_MAX :: int where
  "PTRDIFF_MAX = 2 ^ 63 - 1"

definition malloc :: "'a heap \<Rightarrow> int \<Rightarrow> 'a list option" where
  "malloc h n =
     (if n \<le> PTRDIFF_MAX \<and> grants h n
      then Some (map (junk h) [0 ..< nat (n div sizeof_ptr)]) else None)"

subsection \<open>The buffer\<close>

record 'a circular_buffer =
  buffer :: "'a list"
  head :: int
  tail :: int
  len :: int
  maxlen :: int

datatype error =
    EINVAL  \<comment> \<open>\<^verbatim>\<open>-1\<close> returned, \<^verbatim>\<open>errno = EINVAL\<close>\<close>
  | ENOMEM  \<comment> \<open>\<^verbatim>\<open>-1\<close> returned, \<^verbatim>\<open>errno = ENOMEM\<close>\<close>
  | FAILED  \<comment> \<open>\<^verbatim>\<open>-1\<close> returned, \<^verbatim>\<open>errno\<close> left as it was\<close>

text \<open>
  \<^verbatim>\<open>circular_buffer_init\<close>: the size handed to \<^verbatim>\<open>malloc\<close> is \<^verbatim>\<open>sizeof(void *) * max_len\<close>
  computed in \<^verbatim>\<open>size_t\<close>, so \<^verbatim>\<open>max_len\<close> is converted and the product wraps. The pointer is
  stored in the structure before it is tested.
\<close>

definition circular_buffer_init ::
  "'a heap \<Rightarrow> 'a circular_buffer option \<Rightarrow> int
     \<Rightarrow> (error + int) \<times> 'a circular_buffer option" where
  "circular_buffer_init h c_buf max_len =
     (case c_buf of
        None \<Rightarrow> (Inl EINVAL, None)
      | Some c \<Rightarrow>
          (case malloc h ((sizeof_ptr * (max_len mod SIZE_MOD)) mod SIZE_MOD) of
             None \<Rightarrow> (Inl ENOMEM, Some (c\<lparr>buffer := []\<rparr>))
           | Some blk \<Rightarrow>
               (Inr 0, Some (c\<lparr>buffer := blk, len := 0, head := 0, tail := 0,
                                maxlen := max_len\<rparr>))))"

definition circular_buffer_deinit ::
  "'a circular_buffer option \<Rightarrow> (error + int) \<times> 'a circular_buffer option" where
  "circular_buffer_deinit c_buf =
     (case c_buf of
        None \<Rightarrow> (Inl EINVAL, None)
      | Some c \<Rightarrow>
          (Inr 0, Some (c\<lparr>buffer := [], len := 0, head := 0, tail := 0, maxlen := 0\<rparr>)))"

definition circular_buffer_is_empty :: "'a circular_buffer option \<Rightarrow> error + int" where
  "circular_buffer_is_empty c_buf =
     (case c_buf of
        None \<Rightarrow> Inl EINVAL
      | Some c \<Rightarrow> if len c = 0 then Inr 1 else Inr 0)"

definition circular_buffer_is_full :: "'a circular_buffer option \<Rightarrow> error + int" where
  "circular_buffer_is_full c_buf =
     (case c_buf of
        None \<Rightarrow> Inl EINVAL
      | Some c \<Rightarrow> if len c = maxlen c then Inr 1 else Inr 0)"

definition circular_buffer_push ::
  "'a circular_buffer option \<Rightarrow> 'a
     \<Rightarrow> ((error + int) \<times> 'a circular_buffer option) option" where
  "circular_buffer_push c_buf data =
     (case c_buf of
        None \<Rightarrow> Some (Inl EINVAL, None)
      | Some c \<Rightarrow>
          if circular_buffer_is_full (Some c) = Inr 1 then Some (Inl FAILED, Some c)
          else
            (case (if len c > 0 then next_index (head c) (maxlen c) else Some (head c)) of
               None \<Rightarrow> None
             | Some h \<Rightarrow>
                 (case store (buffer c) h data of
                    None \<Rightarrow> None
                  | Some b \<Rightarrow>
                      (case c_add (len c) 1 of
                         None \<Rightarrow> None
                       | Some l \<Rightarrow>
                           Some (Inr 0, Some (c\<lparr>head := h, buffer := b, len := l\<rparr>))))))"

text \<open>
  \<^verbatim>\<open>circular_buffer_pop\<close>: the argument \<open>data\<close> is the caller's cell (\<open>Some v\<close> when it holds
  \<open>v\<close> before the call); the cell comes back with the popped element in it.
\<close>

definition circular_buffer_pop ::
  "'a circular_buffer option \<Rightarrow> 'a option
     \<Rightarrow> ((error + int) \<times> 'a circular_buffer option \<times> 'a option) option" where
  "circular_buffer_pop c_buf data =
     (case c_buf of
        None \<Rightarrow> Some (Inl EINVAL, None, data)
      | Some c \<Rightarrow>
          (case data of
             None \<Rightarrow> Some (Inl EINVAL, Some c, None)
           | Some old \<Rightarrow>
               if circular_buffer_is_empty (Some c) = Inr 1
               then Some (Inl EINVAL, Some c, Some old)
               else
                 (case load (buffer c) (tail c) of
                    None \<Rightarrow> None
                  | Some v \<Rightarrow>
                      (case (if len c > 1 then next_index (tail c) (maxlen c)
                             else Some (tail c)) of
                         None \<Rightarrow> None
                       | Some t \<Rightarrow>
                           (case c_add (len c) (- 1) of
                              None \<Rightarrow> None
                            | Some l \<Rightarrow>
                                Some (Inr 0, Some (c\<lparr>tail := t, len := l\<rparr>), Some v))))))"

definition circular_buffer_empty ::
  "'a circular_buffer option \<Rightarrow> (error + int) \<times> 'a circular_buffer option" where
  "circular_buffer_empty c_buf =
     (case c_buf of
        None \<Rightarrow> (Inl EINVAL, None)
      | Some c \<Rightarrow> (Inr 0, Some (c\<lparr>head := 0, tail := 0, len := 0\<rparr>)))"

text \<open>
  The loop of \<^verbatim>\<open>circular_buffer_get_data\<close>. \<open>n\<close> is the argument \<^verbatim>\<open>len\<close>, \<open>d\<close> the caller's
  array.
\<close>

function get_data_loop ::
  "ptr circular_buffer \<Rightarrow> ptr list \<Rightarrow> int \<Rightarrow> int \<Rightarrow> int
     \<Rightarrow> (ptr circular_buffer \<times> ptr list \<times> int) option" where
  "get_data_loop c d n offset count =
     (if len c > 0 then
        (case c_add count offset of
           None \<Rightarrow> None
         | Some s \<Rightarrow>
             if s < n then
               (case load (buffer c) (tail c) of
                  None \<Rightarrow> None
                | Some v \<Rightarrow>
                    (case c_add offset count of
                       None \<Rightarrow> None
                     | Some k \<Rightarrow>
                         (case store d k v of
                            None \<Rightarrow> None
                          | Some d' \<Rightarrow>
                              (case c_add count 1 of
                                 None \<Rightarrow> None
                               | Some count' \<Rightarrow>
                                   (case (if len c > 1 then next_index (tail c) (maxlen c)
                                          else Some (tail c)) of
                                      None \<Rightarrow> None
                                    | Some t \<Rightarrow>
                                        (case c_add (len c) (- 1) of
                                           None \<Rightarrow> None
                                         | Some l \<Rightarrow>
                                             get_data_loop (c\<lparr>tail := t, len := l\<rparr>) d' n
                                               offset count'))))))
             else Some (c, d, count))
      else Some (c, d, count))"
  by pat_completeness auto
termination
  by (relation "measure (\<lambda>(c, d, n, offset, count). nat (len c))")
    (auto simp: c_add_def split: if_splits)

definition circular_buffer_get_data ::
  "ptr circular_buffer option \<Rightarrow> ptr list option \<Rightarrow> int \<Rightarrow> int
     \<Rightarrow> ((error + int) \<times> ptr circular_buffer option \<times> ptr list option) option" where
  "circular_buffer_get_data c_buf data_buf n offset =
     (case c_buf of
        None \<Rightarrow> Some (Inl EINVAL, None, data_buf)
      | Some c \<Rightarrow>
          (case data_buf of
             None \<Rightarrow> Some (Inl EINVAL, Some c, None)
           | Some d \<Rightarrow>
               if n \<le> 0 then Some (Inl EINVAL, Some c, Some d)
               else
                 (case memset d 0 n of
                    None \<Rightarrow> None
                  | Some d0 \<Rightarrow>
                      (case get_data_loop c d0 n offset 0 of
                         None \<Rightarrow> None
                       | Some (c', d', count) \<Rightarrow> Some (Inr count, Some c', Some d')))))"

text \<open>
  The loop of \<^verbatim>\<open>circular_buffer_set_data\<close>. \<open>src\<close> is the caller's array, which is only read.
\<close>

function set_data_loop ::
  "'a circular_buffer \<Rightarrow> 'a list \<Rightarrow> int \<Rightarrow> int \<Rightarrow> int
     \<Rightarrow> ('a circular_buffer \<times> int) option" where
  "set_data_loop c src n offset count =
     (if len c < maxlen c then
        (case c_add count offset of
           None \<Rightarrow> None
         | Some s \<Rightarrow>
             if s < n then
               (case (if len c > 0 then next_index (head c) (maxlen c) else Some (head c)) of
                  None \<Rightarrow> None
                | Some h \<Rightarrow>
                    (case c_add offset count of
                       None \<Rightarrow> None
                     | Some k \<Rightarrow>
                         (case load src k of
                            None \<Rightarrow> None
                          | Some v \<Rightarrow>
                              (case c_add count 1 of
                                 None \<Rightarrow> None
                               | Some count' \<Rightarrow>
                                   (case store (buffer c) h v of
                                      None \<Rightarrow> None
                                    | Some b \<Rightarrow>
                                        (case c_add (len c) 1 of
                                           None \<Rightarrow> None
                                         | Some l \<Rightarrow>
                                             set_data_loop
                                               (c\<lparr>head := h, buffer := b, len := l\<rparr>) src n
                                               offset count'))))))
             else Some (c, count))
      else Some (c, count))"
  by pat_completeness auto
termination
  by (relation "measure (\<lambda>(c, src, n, offset, count). nat (maxlen c - len c))")
    (auto simp: c_add_def split: if_splits)

definition circular_buffer_set_data ::
  "'a circular_buffer option \<Rightarrow> 'a list option \<Rightarrow> int \<Rightarrow> int
     \<Rightarrow> ((error + int) \<times> 'a circular_buffer option) option" where
  "circular_buffer_set_data c_buf data_buf n offset =
     (case c_buf of
        None \<Rightarrow> Some (Inl EINVAL, None)
      | Some c \<Rightarrow>
          (case data_buf of
             None \<Rightarrow> Some (Inl EINVAL, Some c)
           | Some src \<Rightarrow>
               if n < 0 then Some (Inl EINVAL, Some c)
               else
                 (case set_data_loop c src n offset 0 of
                    None \<Rightarrow> None
                  | Some (c', count) \<Rightarrow> Some (Inr count, Some c'))))"

text \<open>
  The loop of \<^verbatim>\<open>circular_buffer_peek\<close>. The structure is only read; \<open>i\<close> is the local read
  index.
\<close>

function peek_loop ::
  "ptr circular_buffer \<Rightarrow> ptr list \<Rightarrow> int \<Rightarrow> int \<Rightarrow> int \<Rightarrow> int \<Rightarrow> (ptr list \<times> int) option" where
  "peek_loop c d n offset count i =
     (if count < len c then
        (case c_add count offset of
           None \<Rightarrow> None
         | Some s \<Rightarrow>
             if s < n then
               (case load (buffer c) i of
                  None \<Rightarrow> None
                | Some v \<Rightarrow>
                    (case c_add offset count of
                       None \<Rightarrow> None
                     | Some k \<Rightarrow>
                         (case store d k v of
                            None \<Rightarrow> None
                          | Some d' \<Rightarrow>
                              (case c_add count 1 of
                                 None \<Rightarrow> None
                               | Some count' \<Rightarrow>
                                   (case (if len c > 1 then next_index i (maxlen c)
                                          else Some i) of
                                      None \<Rightarrow> None
                                    | Some i' \<Rightarrow> peek_loop c d' n offset count' i')))))
             else Some (d, count))
      else Some (d, count))"
  by pat_completeness auto
termination
  by (relation "measure (\<lambda>(c, d, n, offset, count, i). nat (len c - count))")
    (auto simp: c_add_def split: if_splits)

definition circular_buffer_peek ::
  "ptr circular_buffer option \<Rightarrow> ptr list option \<Rightarrow> int \<Rightarrow> int \<Rightarrow> int
     \<Rightarrow> ((error + int) \<times> ptr circular_buffer option \<times> ptr list option) option" where
  "circular_buffer_peek c_buf data_buf n offset offset_cb =
     (case c_buf of
        None \<Rightarrow> Some (Inl EINVAL, None, data_buf)
      | Some c \<Rightarrow>
          (case data_buf of
             None \<Rightarrow> Some (Inl EINVAL, Some c, None)
           | Some d \<Rightarrow>
               if n \<le> 0 then Some (Inl EINVAL, Some c, Some d)
               else
                 (case memset d 0 n of
                    None \<Rightarrow> None
                  | Some d0 \<Rightarrow>
                      (case c_add (tail c) offset of
                         None \<Rightarrow> None
                       | Some s \<Rightarrow>
                           (case c_rem s (maxlen c) of
                              None \<Rightarrow> None
                            | Some i \<Rightarrow>
                                (case peek_loop c d0 n offset offset i of
                                   None \<Rightarrow> None
                                 | Some (d', count) \<Rightarrow>
                                     Some (Inr count, Some c, Some d')))))))"

text \<open>
  In \<open>circular_buffer_peek\<close> above the caller's array is an object of its own. The pointer
  \<^verbatim>\<open>data_buf\<close> may as well point into the buffer's own block; then \<^verbatim>\<open>memset\<close> and the loop
  write the storage they read. \<open>circular_buffer_peek_at\<close> is the same function with the
  pointer made explicit: \<^verbatim>\<open>NULL\<close>, the first slot of an array apart from the block, or slot
  \<open>k\<close> of the block (\<^verbatim>\<open>c_buf->buffer + k\<close>). \<open>peek_ring_loop\<close> is the loop in the last case:
  \<^verbatim>\<open>data_buf[j]\<close> is slot \<open>k + j\<close> of the block.
\<close>

datatype 'a dest =
    Dest_null
  | Dest_array "'a list"
  | Dest_ring int

function peek_ring_loop ::
  "ptr circular_buffer \<Rightarrow> int \<Rightarrow> int \<Rightarrow> int \<Rightarrow> int \<Rightarrow> int
     \<Rightarrow> (ptr circular_buffer \<times> int) option" where
  "peek_ring_loop c k n offset count i =
     (if count < len c then
        (case c_add count offset of
           None \<Rightarrow> None
         | Some s \<Rightarrow>
             if s < n then
               (case load (buffer c) i of
                  None \<Rightarrow> None
                | Some v \<Rightarrow>
                    (case c_add offset count of
                       None \<Rightarrow> None
                     | Some j \<Rightarrow>
                         (case store (buffer c) (k + j) v of
                            None \<Rightarrow> None
                          | Some b \<Rightarrow>
                              (case c_add count 1 of
                                 None \<Rightarrow> None
                               | Some count' \<Rightarrow>
                                   (case (if len c > 1 then next_index i (maxlen c)
                                          else Some i) of
                                      None \<Rightarrow> None
                                    | Some i' \<Rightarrow>
                                        peek_ring_loop (c\<lparr>buffer := b\<rparr>) k n offset count'
                                          i')))))
             else Some (c, count))
      else Some (c, count))"
  by pat_completeness auto
termination
  by (relation "measure (\<lambda>(c, k, n, offset, count, i). nat (len c - count))")
    (auto simp: c_add_def split: if_splits)

definition circular_buffer_peek_at ::
  "ptr circular_buffer option \<Rightarrow> ptr dest \<Rightarrow> int \<Rightarrow> int \<Rightarrow> int
     \<Rightarrow> ((error + int) \<times> ptr circular_buffer option \<times> ptr dest) option" where
  "circular_buffer_peek_at c_buf data_buf n offset offset_cb =
     (case c_buf of
        None \<Rightarrow> Some (Inl EINVAL, None, data_buf)
      | Some c \<Rightarrow>
          (case data_buf of
             Dest_null \<Rightarrow> Some (Inl EINVAL, Some c, Dest_null)
           | Dest_array d \<Rightarrow>
               if n \<le> 0 then Some (Inl EINVAL, Some c, Dest_array d)
               else
                 (case memset d 0 n of
                    None \<Rightarrow> None
                  | Some d0 \<Rightarrow>
                      (case c_add (tail c) offset of
                         None \<Rightarrow> None
                       | Some s \<Rightarrow>
                           (case c_rem s (maxlen c) of
                              None \<Rightarrow> None
                            | Some i \<Rightarrow>
                                (case peek_loop c d0 n offset offset i of
                                   None \<Rightarrow> None
                                 | Some (d', count) \<Rightarrow>
                                     Some (Inr count, Some c, Dest_array d')))))
           | Dest_ring k \<Rightarrow>
               if n \<le> 0 then Some (Inl EINVAL, Some c, Dest_ring k)
               else if \<not> (0 \<le> k \<and> k \<le> int (length (buffer c))) then None
               else
                 (case memset (drop (nat k) (buffer c)) 0 n of
                    None \<Rightarrow> None
                  | Some b0 \<Rightarrow>
                      (case c_add (tail c) offset of
                         None \<Rightarrow> None
                       | Some s \<Rightarrow>
                           (case c_rem s (maxlen c) of
                              None \<Rightarrow> None
                            | Some i \<Rightarrow>
                                (case peek_ring_loop
                                        (c\<lparr>buffer := take (nat k) (buffer c) @ b0\<rparr>) k n
                                        offset offset i of
                                   None \<Rightarrow> None
                                 | Some (c', count) \<Rightarrow>
                                     Some (Inr count, Some c', Dest_ring k)))))))"

text \<open>
  The loop equations unfold without end, so they are taken out of the simplifier's
  rules and applied by hand.
\<close>

declare get_data_loop.simps [simp del]

declare set_data_loop.simps [simp del]

declare peek_loop.simps [simp del]

declare peek_ring_loop.simps [simp del]

subsection \<open>Drivers: sequences of calls\<close>

text \<open>
  \<open>run cell c ops\<close> performs a sequence of pushes and pops on the buffer \<open>c\<close>, the pops
  writing into one cell of the caller that holds \<open>cell\<close> at first. It returns the elements
  of the pushes that succeeded, the elements that the successful pops delivered, both in
  call order, and the final buffer. A call that fails is followed by the next one.
\<close>

datatype 'a op = Push 'a | Pop

fun run ::
  "'a \<Rightarrow> 'a circular_buffer \<Rightarrow> 'a op list
     \<Rightarrow> ('a list \<times> 'a list \<times> 'a circular_buffer) option" where
  "run cell c [] = Some ([], [], c)"
| "run cell c (Push x # ops) =
     (case circular_buffer_push (Some c) x of
        Some (Inr r, Some c') \<Rightarrow>
          (case run cell c' ops of
             None \<Rightarrow> None
           | Some (pushed, popped, c'') \<Rightarrow> Some (x # pushed, popped, c''))
      | Some (Inl e, Some c') \<Rightarrow> run cell c' ops
      | _ \<Rightarrow> None)"
| "run cell c (Pop # ops) =
     (case circular_buffer_pop (Some c) (Some cell) of
        Some (Inr r, Some c', Some v) \<Rightarrow>
          (case run v c' ops of
             None \<Rightarrow> None
           | Some (pushed, popped, c'') \<Rightarrow> Some (pushed, v # popped, c''))
      | Some (Inl e, Some c', Some v) \<Rightarrow> run v c' ops
      | _ \<Rightarrow> None)"

text \<open>
  \<open>step c a\<close> is the buffer after one call \<open>a\<close> of the library on the buffer \<open>c\<close>, whatever
  the call returns; \<open>None\<close> when the call is undefined. The caller's cell or array may be
  \<^verbatim>\<open>NULL\<close>. \<open>steps\<close> iterates it.
\<close>

datatype call =
    CallPush ptr
  | CallPop "ptr option"
  | CallClear
  | CallDrainInto "ptr list option" int int
  | CallFillFrom "ptr list option" int int
  | CallPeek "ptr list option" int int int
  | CallIsEmpty
  | CallIsFull

fun step :: "ptr circular_buffer \<Rightarrow> call \<Rightarrow> ptr circular_buffer option" where
  "step c (CallPush x) =
     (case circular_buffer_push (Some c) x of Some (r, Some c') \<Rightarrow> Some c' | _ \<Rightarrow> None)"
| "step c (CallPop cell) =
     (case circular_buffer_pop (Some c) cell of
        Some (r, Some c', out) \<Rightarrow> Some c' | _ \<Rightarrow> None)"
| "step c CallClear =
     (case circular_buffer_empty (Some c) of (r, Some c') \<Rightarrow> Some c' | _ \<Rightarrow> None)"
| "step c (CallDrainInto d n offset) =
     (case circular_buffer_get_data (Some c) d n offset of
        Some (r, Some c', out) \<Rightarrow> Some c' | _ \<Rightarrow> None)"
| "step c (CallFillFrom src n offset) =
     (case circular_buffer_set_data (Some c) src n offset of
        Some (r, Some c') \<Rightarrow> Some c' | _ \<Rightarrow> None)"
| "step c (CallPeek d n offset offset_cb) =
     (case circular_buffer_peek (Some c) d n offset offset_cb of
        Some (r, Some c', out) \<Rightarrow> Some c' | _ \<Rightarrow> None)"
| "step c CallIsEmpty =
     (case circular_buffer_is_empty (Some c) of Inl e \<Rightarrow> Some c | Inr b \<Rightarrow> Some c)"
| "step c CallIsFull =
     (case circular_buffer_is_full (Some c) of Inl e \<Rightarrow> Some c | Inr b \<Rightarrow> Some c)"

fun steps :: "ptr circular_buffer \<Rightarrow> call list \<Rightarrow> ptr circular_buffer option" where
  "steps c [] = Some c"
| "steps c (a # as) = (case step c a of None \<Rightarrow> None | Some c' \<Rightarrow> steps c' as)"

text \<open>Repeated \<^verbatim>\<open>circular_buffer_push\<close>, every call succeeding.\<close>

fun push_all :: "'a circular_buffer \<Rightarrow> 'a list \<Rightarrow> 'a circular_buffer option" where
  "push_all c [] = Some c"
| "push_all c (x # xs) =
     (case circular_buffer_push (Some c) x of
        Some (Inr r, Some c') \<Rightarrow> push_all c' xs
      | _ \<Rightarrow> None)"

subsection \<open>The representation invariant and the queue a buffer holds\<close>

text \<open>
  \<open>cb_inv c\<close>: the block has \<open>maxlen\<close> slots, \<open>len\<close> is between 0 and \<open>maxlen\<close>, the two
  indices are inside the block, and \<open>head\<close> is \<open>len - 1\<close> slots after \<open>tail\<close> around the
  ring (equal to it when the buffer is empty).
\<close>

definition cb_inv :: "'a circular_buffer \<Rightarrow> bool" where
  "cb_inv c \<longleftrightarrow>
     0 \<le> maxlen c \<and> maxlen c \<le> INT_MAX \<and> int (length (buffer c)) = maxlen c \<and>
     0 \<le> len c \<and> len c \<le> maxlen c \<and>
     0 \<le> head c \<and> 0 \<le> tail c \<and>
     (0 < maxlen c \<longrightarrow> head c < maxlen c \<and> tail c < maxlen c) \<and>
     (len c = 0 \<longrightarrow> head c = tail c) \<and>
     (0 < len c \<longrightarrow> head c = (tail c + len c - 1) mod maxlen c)"

text \<open>The elements held, oldest first: the slots \<open>tail, tail + 1, \<dots>\<close> around the ring.\<close>

definition contents :: "'a circular_buffer \<Rightarrow> 'a list" where
  "contents c =
     map (\<lambda>k. buffer c ! nat ((tail c + int k) mod maxlen c)) [0 ..< nat (len c)]"

subsection \<open>Concrete inputs\<close>

text \<open>Inputs on which the theorems below are run.\<close>

definition demo_heap :: "nat heap" where
  "demo_heap = \<lparr>grants = (\<lambda>n. True), junk = (\<lambda>i. 0)\<rparr>"

definition demo_raw :: "nat circular_buffer" where
  "demo_raw = \<lparr>buffer = [], head = 7, tail = 7, len = 7, maxlen = 7\<rparr>"

definition demo_fresh :: "nat circular_buffer" where
  "demo_fresh = \<lparr>buffer = [0, 0, 0], head = 0, tail = 0, len = 0, maxlen = 3\<rparr>"

definition demo_one :: "nat circular_buffer" where
  "demo_one = \<lparr>buffer = [5, 0, 0], head = 0, tail = 0, len = 1, maxlen = 3\<rparr>"

definition demo_empty0 :: "nat circular_buffer" where
  "demo_empty0 = \<lparr>buffer = [], head = 0, tail = 0, len = 0, maxlen = 0\<rparr>"

definition pA :: ptr where
  "pA = [0x10, 0x20, 0, 0, 0, 0, 0, 0]"

definition pB :: ptr where
  "pB = [0x18, 0x20, 0, 0, 0, 0, 0, 0]"

definition pC :: ptr where
  "pC = [0x20, 0x20, 0, 0, 0, 0, 0, 0]"

definition pD :: ptr where
  "pD = [0x28, 0x20, 0, 0, 0, 0, 0, 0]"

definition ptr_heap :: "ptr heap" where
  "ptr_heap = \<lparr>grants = (\<lambda>n. n \<le> 4096), junk = (\<lambda>i. pD)\<rparr>"

definition ptr_raw :: "ptr circular_buffer" where
  "ptr_raw = \<lparr>buffer = [], head = 7, tail = 7, len = 7, maxlen = 7\<rparr>"

definition ptr_fresh :: "ptr circular_buffer" where
  "ptr_fresh = \<lparr>buffer = [pD, pD], head = 0, tail = 0, len = 0, maxlen = 2\<rparr>"

definition demo_calls :: "call list" where
  "demo_calls =
     [CallPush pA, CallPush pB, CallPush pC, CallIsFull, CallPeek (Some [pD, pD]) 2 0 0,
      CallPop (Some pD), CallFillFrom (Some [pC, pD]) 2 0, CallDrainInto (Some [pD, pD, pD]) 3 1,
      CallIsEmpty, CallPop None, CallPush pA, CallClear, CallPush pB, CallPush pC,
      CallPop (Some pD), CallPush pA]"

definition demo_final :: "ptr circular_buffer" where
  "demo_final = \<lparr>buffer = [pA, pC], head = 0, tail = 1, len = 2, maxlen = 2\<rparr>"

definition demo_full :: "nat circular_buffer" where
  "demo_full = \<lparr>buffer = [5, 8, 9], head = 2, tail = 0, len = 3, maxlen = 3\<rparr>"

definition demo_abc :: "ptr circular_buffer" where
  "demo_abc = \<lparr>buffer = [pA, pB, pC], head = 2, tail = 0, len = 3, maxlen = 3\<rparr>"

definition demo_a :: "ptr circular_buffer" where
  "demo_a = \<lparr>buffer = [pA, pB], head = 0, tail = 0, len = 1, maxlen = 2\<rparr>"

section \<open>Properties\<close>

subsection \<open>Arithmetic of the ring\<close>

lemma c_add_Some: "c_int (x + y) \<Longrightarrow> c_add x y = Some (x + y)"
  by (simp add: c_add_def)

lemma smod_nonneg: "0 \<le> x \<Longrightarrow> 0 < m \<Longrightarrow> x smod m = x mod (m::int)"
  by (cases "x = 0") (simp_all add: signed_modulo_int_def)

lemma next_index_Some:
  "0 \<le> x \<Longrightarrow> x < m \<Longrightarrow> m \<le> INT_MAX \<Longrightarrow> next_index x m = Some ((x + 1) mod m)"
  by (simp add: next_index_def c_add_def c_int_def c_rem_def INT_MAX_def INT_MIN_def smod_nonneg)

lemma ring_distinct:
  fixes t m :: int
  assumes "0 \<le> j" "j < k" "k < m"
  shows "(t + j) mod m \<noteq> (t + k) mod m"
proof
  assume "(t + j) mod m = (t + k) mod m"
  then have "(t + k) mod m = (t + j) mod m" by simp
  then have "m dvd (t + k) - (t + j)"
    by (simp only: mod_eq_dvd_iff)
  then have "m dvd k - j" by simp
  moreover have "0 < k - j" "k - j < m" using assms by auto
  ultimately show False
    using zdvd_not_zless by blast
qed

lemma cb_inv_head:
  assumes "cb_inv c" "0 < maxlen c"
  shows "(if 0 < len c then (head c + 1) mod maxlen c else head c) = (tail c + len c) mod maxlen c"
proof (cases "0 < len c")
  case True
  then have "head c = (tail c + len c - 1) mod maxlen c"
    using assms by (simp add: cb_inv_def)
  then have "(head c + 1) mod maxlen c = ((tail c + len c - 1) + 1) mod maxlen c"
    by (simp add: mod_add_left_eq)
  then show ?thesis using True by simp
next
  case False
  then have "len c = 0" "head c = tail c" "0 \<le> tail c" "tail c < maxlen c"
    using assms by (auto simp: cb_inv_def)
  then show ?thesis by simp
qed

subsection \<open>One push, one pop\<close>

lemma push_ok:
  assumes inv: "cb_inv c" and nf: "len c \<noteq> maxlen c"
  defines "h \<equiv> (if 0 < len c then (head c + 1) mod maxlen c else head c)"
  shows "circular_buffer_push (Some c) x =
           Some (Inr 0, Some (c\<lparr>head := h, buffer := (buffer c)[nat h := x], len := len c + 1\<rparr>))"
proof -
  have m: "0 < maxlen c" "len c < maxlen c" "maxlen c \<le> INT_MAX" "0 \<le> len c"
    using inv nf by (auto simp: cb_inv_def)
  have hd: "0 \<le> head c" "head c < maxlen c"
    using inv m by (auto simp: cb_inv_def)
  have ni: "(if len c > 0 then next_index (head c) (maxlen c) else Some (head c)) = Some h"
    using hd m by (simp add: h_def next_index_Some)
  have hr: "0 \<le> h" "h < maxlen c"
    using hd m by (auto simp: h_def)
  have st: "store (buffer c) h x = Some ((buffer c)[nat h := x])"
    using hr inv by (simp add: store_def cb_inv_def)
  have ad: "c_add (len c) 1 = Some (len c + 1)"
    using m by (simp add: c_add_def c_int_def INT_MAX_def INT_MIN_def)
  show ?thesis
    using nf by (simp add: circular_buffer_push_def circular_buffer_is_full_def ni st ad)
qed

lemma push_full:
  "len c = maxlen c \<Longrightarrow> circular_buffer_push (Some c) x = Some (Inl FAILED, Some c)"
  by (simp add: circular_buffer_push_def circular_buffer_is_full_def)

lemma push_inv:
  assumes inv: "cb_inv c" and nf: "len c \<noteq> maxlen c"
    and r: "circular_buffer_push (Some c) x = Some (r, Some c')"
  shows "cb_inv c'"
proof -
  have m: "0 < maxlen c" "len c < maxlen c" "0 \<le> len c"
    using inv nf by (auto simp: cb_inv_def)
  let ?h = "(if 0 < len c then (head c + 1) mod maxlen c else head c)"
  have c': "c' = c\<lparr>head := ?h, buffer := (buffer c)[nat ?h := x], len := len c + 1\<rparr>"
    using push_ok[OF inv nf, of x] r by simp
  have h: "?h = (tail c + len c) mod maxlen c"
    using cb_inv_head[OF inv m(1)] .
  have "0 \<le> ?h" "?h < maxlen c" using m unfolding h by simp_all
  then show ?thesis
    using inv m h unfolding c' cb_inv_def by simp
qed

lemma push_contents:
  assumes inv: "cb_inv c" and nf: "len c \<noteq> maxlen c"
    and r: "circular_buffer_push (Some c) x = Some (r, Some c')"
  shows "contents c' = contents c @ [x]"
proof -
  have m: "0 < maxlen c" "len c < maxlen c" "0 \<le> len c" "int (length (buffer c)) = maxlen c"
    using inv nf by (auto simp: cb_inv_def)
  let ?h = "(if 0 < len c then (head c + 1) mod maxlen c else head c)"
  have c': "c' = c\<lparr>head := ?h, buffer := (buffer c)[nat ?h := x], len := len c + 1\<rparr>"
    using push_ok[OF inv nf, of x] r by simp
  have h: "?h = (tail c + len c) mod maxlen c"
    using cb_inv_head[OF inv m(1)] .
  have hr: "0 \<le> ?h" "?h < maxlen c" using m unfolding h by simp_all
  have n: "nat (len c + 1) = Suc (nat (len c))" using m by simp
  have old: "(buffer c)[nat ?h := x] ! nat ((tail c + int k) mod maxlen c)
               = buffer c ! nat ((tail c + int k) mod maxlen c)" if "k < nat (len c)" for k
  proof -
    have "(tail c + int k) mod maxlen c \<noteq> (tail c + len c) mod maxlen c"
      using that m by (intro ring_distinct) auto
    moreover have "0 \<le> (tail c + int k) mod maxlen c" using m by simp
    ultimately have "nat ?h \<noteq> nat ((tail c + int k) mod maxlen c)"
      using hr unfolding h by (simp add: nat_eq_iff)
    then show ?thesis by (rule nth_list_update_neq)
  qed
  have new: "(buffer c)[nat ?h := x] ! nat ((tail c + int (nat (len c))) mod maxlen c) = x"
    using m hr h by (simp add: nat_less_iff)
  show ?thesis
    unfolding c' contents_def using old new by (simp add: n)
qed

lemma pop_ok:
  assumes inv: "cb_inv c" and ne: "len c \<noteq> 0"
  defines "t \<equiv> (if 1 < len c then (tail c + 1) mod maxlen c else tail c)"
  shows "circular_buffer_pop (Some c) (Some old) =
           Some (Inr 0, Some (c\<lparr>tail := t, len := len c - 1\<rparr>), Some (buffer c ! nat (tail c)))"
proof -
  have m: "0 < maxlen c" "0 < len c" "len c \<le> maxlen c" "maxlen c \<le> INT_MAX"
    using inv ne by (auto simp: cb_inv_def)
  have tl: "0 \<le> tail c" "tail c < maxlen c"
    using inv m by (auto simp: cb_inv_def)
  have ld: "load (buffer c) (tail c) = Some (buffer c ! nat (tail c))"
    using tl inv by (simp add: load_def cb_inv_def)
  have ni: "(if len c > 1 then next_index (tail c) (maxlen c) else Some (tail c)) = Some t"
    using tl m by (simp add: t_def next_index_Some)
  have ad: "c_add (len c) (- 1) = Some (len c - 1)"
    using m by (simp add: c_add_def c_int_def INT_MAX_def INT_MIN_def)
  show ?thesis
    using ne by (simp add: circular_buffer_pop_def circular_buffer_is_empty_def ld ni ad)
qed

lemma pop_empty:
  "len c = 0 \<Longrightarrow> circular_buffer_pop (Some c) (Some old) = Some (Inl EINVAL, Some c, Some old)"
  by (simp add: circular_buffer_pop_def circular_buffer_is_empty_def)

lemma pop_inv:
  assumes inv: "cb_inv c" and ne: "len c \<noteq> 0"
    and r: "circular_buffer_pop (Some c) (Some old) = Some (r, Some c', out)"
  shows "cb_inv c'"
proof -
  have m: "0 < maxlen c" "0 < len c" "len c \<le> maxlen c"
    using inv ne by (auto simp: cb_inv_def)
  let ?t = "(if 1 < len c then (tail c + 1) mod maxlen c else tail c)"
  have c': "c' = c\<lparr>tail := ?t, len := len c - 1\<rparr>"
    using pop_ok[OF inv ne, of old] r by simp
  have hd: "head c = (tail c + len c - 1) mod maxlen c" "0 \<le> tail c" "tail c < maxlen c"
    using inv m by (auto simp: cb_inv_def)
  show ?thesis
  proof (cases "1 < len c")
    case True
    have e: "(tail c + 1) mod maxlen c + (len c - 1) - 1 = (tail c + 1) mod maxlen c + (len c - 2)"
      by linarith
    have "((tail c + 1) mod maxlen c + (len c - 1) - 1) mod maxlen c
            = ((tail c + 1) + (len c - 2)) mod maxlen c"
      unfolding e by (rule mod_add_left_eq)
    also have "\<dots> = (tail c + len c - 1) mod maxlen c"
      by simp
    finally have "((tail c + 1) mod maxlen c + (len c - 1) - 1) mod maxlen c = head c"
      using hd(1) by simp
    then have hd': "head c = ((tail c + 1) mod maxlen c + (len c - 1) - 1) mod maxlen c"
      by (rule sym)
    have "0 \<le> (tail c + 1) mod maxlen c" "(tail c + 1) mod maxlen c < maxlen c"
      using m by simp_all
    then show ?thesis
      using inv m True hd' unfolding c' cb_inv_def by (simp del: mod_add_self1 mod_add_self2)
  next
    case False
    then have "len c = 1" using m by simp
    then show ?thesis
      using inv m hd unfolding c' cb_inv_def by simp
  qed
qed

lemma length_contents: "length (contents c) = nat (len c)"
  by (simp add: contents_def)

lemma contents_Cons:
  assumes inv: "cb_inv c" and ne: "len c \<noteq> 0"
  shows "contents c = buffer c ! nat (tail c)
           # contents (c\<lparr>tail := (if 1 < len c then (tail c + 1) mod maxlen c else tail c),
                          len := len c - 1\<rparr>)"
proof -
  have m: "0 < maxlen c" "0 < len c" "len c \<le> maxlen c" "0 \<le> tail c" "tail c < maxlen c"
    using inv ne by (auto simp: cb_inv_def)
  define n where "n = nat (len c - 1)"
  define t where "t = (if 1 < len c then (tail c + 1) mod maxlen c else tail c)"
  define f where "f = (\<lambda>k. buffer c ! nat ((tail c + int k) mod maxlen c))"
  define g where "g = (\<lambda>k. buffer c ! nat ((t + int k) mod maxlen c))"
  have n: "nat (len c) = Suc n"
    using m by (simp add: n_def)
  have sh: "[0 ..< Suc n] = 0 # map Suc [0 ..< n]"
    by (simp add: upt_conv_Cons map_Suc_upt del: upt_Suc)
  have "contents c = map f [0 ..< Suc n]"
    by (simp only: contents_def f_def n)
  also have "\<dots> = f 0 # map (\<lambda>k. f (Suc k)) [0 ..< n]"
    by (simp only: sh list.map map_map comp_def)
  finally have L: "contents c = f 0 # map (\<lambda>k. f (Suc k)) [0 ..< n]" .
  have f0: "f 0 = buffer c ! nat (tail c)"
    using m by (simp add: f_def)
  have R: "contents (c\<lparr>tail := t, len := len c - 1\<rparr>) = map g [0 ..< n]"
    by (simp add: contents_def g_def n_def)
  have "g k = f (Suc k)" if "k < n" for k
  proof (cases "1 < len c")
    case True
    have "((tail c + 1) mod maxlen c + int k) mod maxlen c = ((tail c + 1) + int k) mod maxlen c"
      by (rule mod_add_left_eq)
    moreover have "(tail c + 1) + int k = tail c + int (Suc k)"
      by simp
    ultimately have "((tail c + 1) mod maxlen c + int k) mod maxlen c
                       = (tail c + int (Suc k)) mod maxlen c"
      by (simp only:)
    then show ?thesis
      using True by (simp only: g_def f_def t_def if_True)
  next
    case False
    then have "n = 0" using m by (simp add: n_def)
    then show ?thesis using that by simp
  qed
  then have "map g [0 ..< n] = map (\<lambda>k. f (Suc k)) [0 ..< n]"
    by simp
  then show ?thesis
    using L R f0 by (simp only: t_def)
qed

lemma pop_contents:
  assumes inv: "cb_inv c" and ne: "len c \<noteq> 0"
    and r: "circular_buffer_pop (Some c) (Some old) = Some (r, Some c', out)"
  shows "contents c = the out # contents c'"
  using pop_ok[OF inv ne, of old] r contents_Cons[OF inv ne] by auto

lemma contents_last:
  assumes "cb_inv c" "0 < len c"
  shows "last (contents c) = buffer c ! nat (head c)"
proof -
  have n: "nat (len c) = Suc (nat (len c - 1))" using assms(2) by simp
  have "head c = (tail c + len c - 1) mod maxlen c"
    using assms by (simp add: cb_inv_def)
  moreover have "tail c + len c - 1 = tail c + int (nat (len c - 1))"
    using assms(2) by simp
  ultimately have h: "head c = (tail c + int (nat (len c - 1))) mod maxlen c"
    by (simp only:)
  have "contents c = map (\<lambda>k. buffer c ! nat ((tail c + int k) mod maxlen c)) [0 ..< nat (len c - 1)]
                       @ [buffer c ! nat ((tail c + int (nat (len c - 1))) mod maxlen c)]"
    unfolding contents_def n by (simp only: upt_Suc_append le0 map_append list.map)
  then show ?thesis
    by (simp only: h last_snoc)
qed

lemma contents_nth:
  assumes "0 \<le> k" "k < len c"
  shows "contents c ! nat k = buffer c ! nat ((tail c + k) mod maxlen c)"
  using assms by (simp add: contents_def)

text \<open>
  Claim C2. On every buffer that satisfies the representation invariant (as every buffer
  reached from \<^verbatim>\<open>circular_buffer_init\<close> does), \<^verbatim>\<open>circular_buffer_push\<close> fails, with \<^verbatim>\<open>-1\<close> and
  \<^verbatim>\<open>errno\<close> untouched, exactly when \<open>len = maxlen\<close>, and then leaves the buffer as it was.
  Otherwise it succeeds: \<open>head\<close> advances to \<open>(head + 1) mod maxlen\<close> only when \<open>len > 0\<close>,
  the element is stored in the slot \<open>head\<close>, \<open>len\<close> grows by one and nothing else changes,
  so the newest element is at \<open>head\<close>. A buffer fresh from \<^verbatim>\<open>circular_buffer_init\<close> has
  \<open>len = 0\<close> and \<open>head = 0\<close>, so its first push writes slot 0.
\<close>

theorem push_behaviour:
  assumes "cb_inv c"
  shows "((\<exists>s. circular_buffer_push (Some c) x = Some (Inl FAILED, s)) \<longleftrightarrow> len c = maxlen c) \<and>
         (len c = maxlen c \<longrightarrow> circular_buffer_push (Some c) x = Some (Inl FAILED, Some c)) \<and>
         (len c \<noteq> maxlen c \<longrightarrow>
            (\<exists>c'. circular_buffer_push (Some c) x = Some (Inr 0, Some c') \<and>
                  head c' = (if 0 < len c then (head c + 1) mod maxlen c else head c) \<and>
                  c' = c\<lparr>head := head c', buffer := (buffer c)[nat (head c') := x],
                         len := len c + 1\<rparr> \<and>
                  buffer c' ! nat (head c') = x \<and> last (contents c') = x)) \<and>
         (circular_buffer_init h (Some c0) n = (Inr 0, Some c) \<longrightarrow> len c = 0 \<and> head c = 0)"
proof -
  have full: "circular_buffer_push (Some c) x = Some (Inl FAILED, Some c)" if "len c = maxlen c"
    using that by (rule push_full)
  have ok: "\<exists>c'. circular_buffer_push (Some c) x = Some (Inr 0, Some c') \<and>
                  head c' = (if 0 < len c then (head c + 1) mod maxlen c else head c) \<and>
                  c' = c\<lparr>head := head c', buffer := (buffer c)[nat (head c') := x],
                         len := len c + 1\<rparr> \<and>
                  buffer c' ! nat (head c') = x \<and> last (contents c') = x"
    if nf: "len c \<noteq> maxlen c"
  proof -
    let ?h = "(if 0 < len c then (head c + 1) mod maxlen c else head c)"
    let ?c = "c\<lparr>head := ?h, buffer := (buffer c)[nat ?h := x], len := len c + 1\<rparr>"
    have p: "circular_buffer_push (Some c) x = Some (Inr 0, Some ?c)"
      using push_ok[OF assms nf] .
    have i: "cb_inv ?c" using push_inv[OF assms nf p] .
    have m: "0 < maxlen c" "0 \<le> len c" "int (length (buffer c)) = maxlen c"
      using assms nf by (auto simp: cb_inv_def)
    have "?h = (tail c + len c) mod maxlen c" using cb_inv_head[OF assms m(1)] .
    then have "0 \<le> ?h" "?h < maxlen c" using m by simp_all
    then have at: "buffer ?c ! nat (head ?c) = x" using m by simp
    have "0 < len ?c" using m by simp
    from contents_last[OF i this] at have "last (contents ?c) = x" by simp
    with p at show ?thesis by simp
  qed
  have iff: "(\<exists>s. circular_buffer_push (Some c) x = Some (Inl FAILED, s)) \<longleftrightarrow> len c = maxlen c"
  proof (cases "len c = maxlen c")
    case True
    then show ?thesis using full by simp
  next
    case False
    then show ?thesis using ok by auto
  qed
  have fresh: "len c = 0 \<and> head c = 0" if "circular_buffer_init h (Some c0) n = (Inr 0, Some c)"
    using that by (auto simp: circular_buffer_init_def split: option.splits)
  show ?thesis using full ok iff fresh by blast
qed

theorem push_behaviour_witness:
  "cb_inv demo_fresh \<and>
   circular_buffer_push (Some demo_fresh) 5 = Some (Inr 0, Some demo_one) \<and>
   circular_buffer_init demo_heap (Some demo_raw) 3 = (Inr 0, Some demo_fresh) \<and>
   head demo_fresh = 0 \<and> buffer demo_one ! nat (head demo_one) = 5"
proof -
  have a: "cb_inv demo_fresh"
    by (simp add: cb_inv_def demo_fresh_def INT_MAX_def)
  have b: "len demo_fresh \<noteq> maxlen demo_fresh"
    by (simp add: demo_fresh_def)
  have c: "circular_buffer_init demo_heap (Some demo_raw) 3 = (Inr 0, Some demo_fresh)"
    by (simp add: circular_buffer_init_def malloc_def demo_heap_def demo_raw_def demo_fresh_def
        sizeof_ptr_def SIZE_MOD_def PTRDIFF_MAX_def upt_rec)
  show ?thesis
    using push_behaviour[OF a, of 5 demo_heap demo_raw 3] a b c
    by (auto simp: demo_fresh_def demo_one_def)
qed

text \<open>
  Claim C3. On every buffer that satisfies the representation invariant, with a cell to
  write to, \<^verbatim>\<open>circular_buffer_pop\<close> fails (with \<^verbatim>\<open>-1\<close> and \<^verbatim>\<open>errno = EINVAL\<close>, the way the code
  reports an empty buffer) exactly when \<open>len = 0\<close>, and then leaves the buffer and the
  cell as they were. Otherwise it delivers the element in the slot \<open>tail\<close>, which is the
  oldest element held, advances \<open>tail\<close> to \<open>(tail + 1) mod maxlen\<close> only when \<open>len > 1\<close>,
  and lowers \<open>len\<close> by one; nothing else changes.
\<close>

theorem pop_behaviour:
  assumes "cb_inv c"
  shows "((\<exists>s out. circular_buffer_pop (Some c) (Some old) = Some (Inl EINVAL, s, out))
            \<longleftrightarrow> len c = 0) \<and>
         (len c = 0 \<longrightarrow>
            circular_buffer_pop (Some c) (Some old) = Some (Inl EINVAL, Some c, Some old)) \<and>
         (len c \<noteq> 0 \<longrightarrow>
            circular_buffer_pop (Some c) (Some old) =
              Some (Inr 0,
                    Some (c\<lparr>tail := (if 1 < len c then (tail c + 1) mod maxlen c else tail c),
                            len := len c - 1\<rparr>),
                    Some (buffer c ! nat (tail c))) \<and>
            buffer c ! nat (tail c) = hd (contents c))"
proof -
  have e: "circular_buffer_pop (Some c) (Some old) = Some (Inl EINVAL, Some c, Some old)"
    if "len c = 0"
    using that by (rule pop_empty)
  have ok: "circular_buffer_pop (Some c) (Some old) =
              Some (Inr 0,
                    Some (c\<lparr>tail := (if 1 < len c then (tail c + 1) mod maxlen c else tail c),
                            len := len c - 1\<rparr>),
                    Some (buffer c ! nat (tail c)))" if "len c \<noteq> 0"
    using pop_ok[OF assms that] .
  have oldest: "buffer c ! nat (tail c) = hd (contents c)" if "len c \<noteq> 0"
    using contents_Cons[OF assms that] by simp
  have iff: "(\<exists>s out. circular_buffer_pop (Some c) (Some old) = Some (Inl EINVAL, s, out))
            \<longleftrightarrow> len c = 0"
  proof (cases "len c = 0")
    case True
    then show ?thesis using e by simp
  next
    case False
    then show ?thesis using ok by simp
  qed
  show ?thesis using e ok oldest iff by blast
qed

theorem pop_behaviour_witness:
  "cb_inv demo_one \<and>
   circular_buffer_pop (Some demo_one) (Some 9) = Some (Inr 0, Some (demo_one\<lparr>len := 0\<rparr>), Some 5) \<and>
   circular_buffer_pop (Some demo_fresh) (Some 9) = Some (Inl EINVAL, Some demo_fresh, Some 9)"
proof -
  have a: "cb_inv demo_one"
    by (simp add: cb_inv_def demo_one_def INT_MAX_def)
  have b: "cb_inv demo_fresh"
    by (simp add: cb_inv_def demo_fresh_def INT_MAX_def)
  show ?thesis
    using pop_behaviour[OF a, of 9] pop_behaviour[OF b, of 9] a
    by (simp add: demo_fresh_def demo_one_def)
qed

subsection \<open>Initialisation\<close>

lemma init_ok:
  assumes "0 \<le> n" "n \<le> INT_MAX"
  shows "circular_buffer_init h (Some c0) n =
          (if grants h (sizeof_ptr * n)
           then (Inr 0, Some (c0\<lparr>buffer := map (junk h) [0 ..< nat n], len := 0, head := 0,
                                  tail := 0, maxlen := n\<rparr>))
           else (Inl ENOMEM, Some (c0\<lparr>buffer := []\<rparr>)))"
proof -
  have "n < 2 ^ 31" using assms by (simp add: INT_MAX_def)
  then have b: "sizeof_ptr * n < 2 ^ 34" "0 \<le> sizeof_ptr * n" using assms
    by (simp_all add: sizeof_ptr_def)
  have "n mod SIZE_MOD = n" using assms \<open>n < 2 ^ 31\<close> by (simp add: SIZE_MOD_def)
  moreover have "(sizeof_ptr * n) mod SIZE_MOD = sizeof_ptr * n"
    using b by (simp add: SIZE_MOD_def)
  moreover have "sizeof_ptr * n \<le> PTRDIFF_MAX" using b by (simp add: PTRDIFF_MAX_def)
  moreover have "sizeof_ptr * n div sizeof_ptr = n" by (simp add: sizeof_ptr_def)
  ultimately show ?thesis
    by (simp add: circular_buffer_init_def malloc_def)
qed

lemma init_negative:
  assumes "INT_MIN \<le> n" "n < 0"
  shows "circular_buffer_init h (Some c0) n = (Inl ENOMEM, Some (c0\<lparr>buffer := []\<rparr>))"
proof -
  have "(SIZE_MOD + n) mod SIZE_MOD = SIZE_MOD + n"
    using assms by (intro mod_pos_pos_trivial) (simp_all add: SIZE_MOD_def INT_MIN_def)
  moreover have "(SIZE_MOD + n) mod SIZE_MOD = n mod SIZE_MOD"
    by (rule mod_add_self1)
  ultimately have m: "n mod SIZE_MOD = SIZE_MOD + n"
    by simp
  have "sizeof_ptr * (SIZE_MOD + n) = 7 * SIZE_MOD + (SIZE_MOD + 8 * n)"
    by (simp add: sizeof_ptr_def)
  then have "(sizeof_ptr * (SIZE_MOD + n)) mod SIZE_MOD = (SIZE_MOD + 8 * n) mod SIZE_MOD"
    by (metis mod_mult_self4 mult.commute)
  also have "\<dots> = SIZE_MOD + 8 * n"
    using assms by (intro mod_pos_pos_trivial) (simp_all add: SIZE_MOD_def INT_MIN_def)
  finally have "(sizeof_ptr * (n mod SIZE_MOD)) mod SIZE_MOD = SIZE_MOD + 8 * n"
    using m by simp
  moreover have "\<not> SIZE_MOD + 8 * n \<le> PTRDIFF_MAX"
    using assms by (simp add: SIZE_MOD_def PTRDIFF_MAX_def INT_MIN_def)
  ultimately show ?thesis
    by (simp add: circular_buffer_init_def malloc_def)
qed

lemma init_inv:
  assumes "c_int n" "circular_buffer_init h (Some c0) n = (Inr r, Some c)"
  shows "cb_inv c \<and> len c = 0 \<and> maxlen c = n \<and> contents c = []"
proof (cases "n < 0")
  case True
  then show ?thesis using assms init_negative[of n h c0] by (simp add: c_int_def)
next
  case False
  then have "0 \<le> n" "n \<le> INT_MAX" using assms by (simp_all add: c_int_def)
  from init_ok[OF this, of h c0] assms(2)
  have "c = c0\<lparr>buffer := map (junk h) [0 ..< nat n], len := 0, head := 0, tail := 0, maxlen := n\<rparr>"
    by (simp split: if_splits)
  then show ?thesis using \<open>0 \<le> n\<close> \<open>n \<le> INT_MAX\<close>
    by (simp add: cb_inv_def contents_def)
qed

text \<open>
  Claim C6, as the code has it. \<^verbatim>\<open>circular_buffer_init\<close> fails with \<^verbatim>\<open>EINVAL\<close> exactly when
  the receiver is \<^verbatim>\<open>NULL\<close>: the capacity is not examined. With a receiver, the outcome is
  decided by the allocation alone: if no block is obtained the call fails with \<^verbatim>\<open>ENOMEM\<close>,
  which is the case for every negative capacity (the converted size exceeds what the
  allocator hands out); if a block is obtained for a capacity from 0 up, the call succeeds,
  the block has exactly that many slots, \<open>head = tail = len = 0\<close> and \<open>maxlen\<close> is the
  capacity.
\<close>

theorem init_behaviour:
  assumes "c_int n"
  shows "(fst (circular_buffer_init h c_buf n) = Inl EINVAL \<longleftrightarrow> c_buf = None) \<and>
         (n < 0 \<longrightarrow> circular_buffer_init h (Some c0) n = (Inl ENOMEM, Some (c0\<lparr>buffer := []\<rparr>))) \<and>
         (0 \<le> n \<and> \<not> grants h (sizeof_ptr * n) \<longrightarrow>
            circular_buffer_init h (Some c0) n = (Inl ENOMEM, Some (c0\<lparr>buffer := []\<rparr>))) \<and>
         (0 \<le> n \<and> grants h (sizeof_ptr * n) \<longrightarrow>
            circular_buffer_init h (Some c0) n =
              (Inr 0, Some (c0\<lparr>buffer := map (junk h) [0 ..< nat n], len := 0, head := 0,
                               tail := 0, maxlen := n\<rparr>)) \<and>
            int (length (map (junk h) [0 ..< nat n])) = n)"
proof -
  have A: "fst (circular_buffer_init h c_buf n) = Inl EINVAL \<longleftrightarrow> c_buf = None"
    by (simp add: circular_buffer_init_def split: option.splits)
  have B: "circular_buffer_init h (Some c0) n = (Inl ENOMEM, Some (c0\<lparr>buffer := []\<rparr>))"
    if "n < 0"
    using init_negative[of n h c0] that assms by (simp add: c_int_def)
  have C: "circular_buffer_init h (Some c0) n =
          (if grants h (sizeof_ptr * n)
           then (Inr 0, Some (c0\<lparr>buffer := map (junk h) [0 ..< nat n], len := 0, head := 0,
                                  tail := 0, maxlen := n\<rparr>))
           else (Inl ENOMEM, Some (c0\<lparr>buffer := []\<rparr>)))" if "0 \<le> n"
    using init_ok[of n h c0] that assms by (simp add: c_int_def)
  show ?thesis using A B C by simp
qed

theorem init_behaviour_witness:
  "c_int 3 \<and> grants demo_heap (sizeof_ptr * 3) \<and>
   circular_buffer_init demo_heap (Some demo_raw) 3 = (Inr 0, Some demo_fresh) \<and>
   int (length (buffer demo_fresh)) = 3 \<and>
   fst (circular_buffer_init demo_heap None 3) = Inl EINVAL"
proof -
  have a: "c_int 3" by (simp add: c_int_def INT_MIN_def INT_MAX_def)
  have b: "grants demo_heap (sizeof_ptr * 3)" by (simp add: demo_heap_def)
  have c: "map (junk demo_heap) [0 ..< 3] = [0, 0, 0]"
    by (simp add: demo_heap_def upt_rec)
  have d: "fst (circular_buffer_init demo_heap None 3) = Inl EINVAL"
    using init_behaviour[OF a, of demo_heap None] by simp
  have e: "circular_buffer_init demo_heap (Some demo_raw) 3 = (Inr 0, Some demo_fresh)"
    using init_behaviour[OF a, of demo_heap "Some demo_raw" demo_raw] b
    by (simp add: c demo_raw_def demo_fresh_def)
  show ?thesis
    using a b d e by (simp add: demo_fresh_def)
qed

text \<open>
  Claim C6 as written fails at the capacities 0 and \<open>-1\<close>: with a heap that grants the
  request for zero bytes the call succeeds with \<open>maxlen = 0\<close>, and for \<open>-1\<close> it reports
  \<^verbatim>\<open>ENOMEM\<close>; neither call reports \<^verbatim>\<open>EINVAL\<close>.
\<close>

theorem init_capacity_counterexample:
  "circular_buffer_init demo_heap (Some demo_raw) 0 = (Inr 0, Some demo_empty0) \<and>
   circular_buffer_init demo_heap (Some demo_raw) (- 1) = (Inl ENOMEM, Some (demo_raw\<lparr>buffer := []\<rparr>)) \<and>
   fst (circular_buffer_init demo_heap (Some demo_raw) 0) \<noteq> Inl EINVAL \<and>
   fst (circular_buffer_init demo_heap (Some demo_raw) (- 1)) \<noteq> Inl EINVAL"
  by (simp add: circular_buffer_init_def malloc_def demo_heap_def demo_raw_def demo_empty0_def
      sizeof_ptr_def SIZE_MOD_def PTRDIFF_MAX_def)

subsection \<open>First in, first out\<close>

lemma run_fifo:
  "cb_inv c \<Longrightarrow> \<exists>pushed popped c'. run cell c ops = Some (pushed, popped, c') \<and> cb_inv c' \<and>
      maxlen c' = maxlen c \<and> contents c @ pushed = popped @ contents c'"
proof (induction ops arbitrary: c cell)
  case Nil
  then show ?case by simp
next
  case (Cons a ops)
  show ?case
  proof (cases a)
    case (Push x)
    show ?thesis
    proof (cases "len c = maxlen c")
      case True
      then show ?thesis
        using Cons.IH[OF Cons.prems, of cell] Push by (simp add: push_full)
    next
      case False
      let ?c = "c\<lparr>head := (if 0 < len c then (head c + 1) mod maxlen c else head c),
                  buffer := (buffer c)[nat (if 0 < len c then (head c + 1) mod maxlen c else head c) := x],
                  len := len c + 1\<rparr>"
      have p: "circular_buffer_push (Some c) x = Some (Inr 0, Some ?c)"
        using push_ok[OF Cons.prems False] .
      have i: "cb_inv ?c" using push_inv[OF Cons.prems False p] .
      have k: "contents ?c = contents c @ [x]" using push_contents[OF Cons.prems False p] .
      from Cons.IH[OF i, of cell] obtain pu po cf where
        r: "run cell ?c ops = Some (pu, po, cf)" "cb_inv cf" "maxlen cf = maxlen ?c"
           "contents ?c @ pu = po @ contents cf"
        by blast
      have "run cell c (a # ops) = Some (x # pu, po, cf)"
        using Push p r(1) by simp
      moreover have "contents c @ (x # pu) = po @ contents cf"
        using r(4) k by simp
      ultimately show ?thesis using r(2,3) by simp
    qed
  next
    case Pop
    show ?thesis
    proof (cases "len c = 0")
      case True
      then show ?thesis
        using Cons.IH[OF Cons.prems, of cell] Pop by (simp add: pop_empty)
    next
      case False
      let ?c = "c\<lparr>tail := (if 1 < len c then (tail c + 1) mod maxlen c else tail c),
                  len := len c - 1\<rparr>"
      let ?v = "buffer c ! nat (tail c)"
      have p: "circular_buffer_pop (Some c) (Some cell) = Some (Inr 0, Some ?c, Some ?v)"
        using pop_ok[OF Cons.prems False] .
      have i: "cb_inv ?c" using pop_inv[OF Cons.prems False p] .
      have k: "contents c = ?v # contents ?c" using contents_Cons[OF Cons.prems False] .
      from Cons.IH[OF i, of ?v] obtain pu po cf where
        r: "run ?v ?c ops = Some (pu, po, cf)" "cb_inv cf" "maxlen cf = maxlen ?c"
           "contents ?c @ pu = po @ contents cf"
        by blast
      have "run cell c (a # ops) = Some (pu, ?v # po, cf)"
        using Pop p r(1) by simp
      moreover have "contents c @ pu = (?v # po) @ contents cf"
        using r(4) k by simp
      ultimately show ?thesis using r(2,3) by simp
    qed
  qed
qed

lemma run_pushes:
  "cb_inv c \<Longrightarrow> len c + int (length xs) \<le> maxlen c \<Longrightarrow>
     \<exists>c'. cb_inv c' \<and> len c' = len c + int (length xs) \<and> maxlen c' = maxlen c \<and>
          contents c' = contents c @ xs \<and>
          run cell c (map Push xs @ ops) =
            (case run cell c' ops of
               None \<Rightarrow> None
             | Some (pushed, popped, cf) \<Rightarrow> Some (xs @ pushed, popped, cf))"
proof (induction xs arbitrary: c)
  case Nil
  then show ?case by (auto split: option.splits)
next
  case (Cons x xs)
  have nf: "len c \<noteq> maxlen c" using Cons.prems by auto
  let ?c = "c\<lparr>head := (if 0 < len c then (head c + 1) mod maxlen c else head c),
              buffer := (buffer c)[nat (if 0 < len c then (head c + 1) mod maxlen c else head c) := x],
              len := len c + 1\<rparr>"
  have p: "circular_buffer_push (Some c) x = Some (Inr 0, Some ?c)"
    using push_ok[OF Cons.prems(1) nf] .
  have i: "cb_inv ?c" using push_inv[OF Cons.prems(1) nf p] .
  have k: "contents ?c = contents c @ [x]" using push_contents[OF Cons.prems(1) nf p] .
  have "len ?c + int (length xs) \<le> maxlen ?c" using Cons.prems(2) by simp
  from Cons.IH[OF i this] obtain c' where
    c': "cb_inv c'" "len c' = len ?c + int (length xs)" "maxlen c' = maxlen ?c"
      "contents c' = contents ?c @ xs"
      "run cell ?c (map Push xs @ ops) =
            (case run cell c' ops of
               None \<Rightarrow> None
             | Some (pushed, popped, cf) \<Rightarrow> Some (xs @ pushed, popped, cf))"
    by blast
  have "run cell c (map Push (x # xs) @ ops) =
            (case run cell c' ops of
               None \<Rightarrow> None
             | Some (pushed, popped, cf) \<Rightarrow> Some ((x # xs) @ pushed, popped, cf))"
    using p c'(5) by (simp split: option.splits)
  moreover have "len c' = len c + int (length (x # xs))" "maxlen c' = maxlen c"
    "contents c' = contents c @ (x # xs)"
    using c'(2,3,4) k by simp_all
  ultimately show ?case using c'(1) by blast
qed

lemma run_pops:
  "cb_inv c \<Longrightarrow> int n \<le> len c \<Longrightarrow>
     \<exists>c'. cb_inv c' \<and> len c' = len c - int n \<and>
          run cell c (replicate n Pop) = Some ([], take n (contents c), c')"
proof (induction n arbitrary: c cell)
  case 0
  then show ?case by simp
next
  case (Suc n)
  have ne: "len c \<noteq> 0" using Suc.prems by auto
  let ?c = "c\<lparr>tail := (if 1 < len c then (tail c + 1) mod maxlen c else tail c),
              len := len c - 1\<rparr>"
  let ?v = "buffer c ! nat (tail c)"
  have p: "circular_buffer_pop (Some c) (Some cell) = Some (Inr 0, Some ?c, Some ?v)"
    using pop_ok[OF Suc.prems(1) ne] .
  have i: "cb_inv ?c" using pop_inv[OF Suc.prems(1) ne p] .
  have k: "contents c = ?v # contents ?c" using contents_Cons[OF Suc.prems(1) ne] .
  have "int n \<le> len ?c" using Suc.prems(2) by simp
  from Suc.IH[OF i this, of ?v] obtain c' where
    c': "cb_inv c'" "len c' = len ?c - int n"
      "run ?v ?c (replicate n Pop) = Some ([], take n (contents ?c), c')"
    by blast
  have "run cell c (replicate (Suc n) Pop) = Some ([], ?v # take n (contents ?c), c')"
    using p c'(3) by simp
  moreover have "take (Suc n) (contents c) = ?v # take n (contents ?c)"
    by (subst k) simp
  moreover have "len c' = len c - int (Suc n)" using c'(2) by simp
  ultimately show ?case using c'(1) by simp
qed

text \<open>
  Claim C1. On a buffer that \<^verbatim>\<open>circular_buffer_init\<close> has set up with a capacity of at least
  1, every sequence of pushes and pops runs without undefined behaviour, and the elements
  delivered by the successful pops are, in order, the elements of the first successful
  pushes: the \<open>k\<close>-th successful pop returns the element of the \<open>k\<close>-th successful push.
  In particular, pushing \<open>N\<close> elements into a buffer of capacity \<open>N\<close> and popping \<open>N\<close>
  times delivers the elements in push order and leaves the buffer empty.
\<close>

theorem fifo_order:
  assumes "c_int n" and "1 \<le> n"
    and "circular_buffer_init h (Some c0) n = (Inr 0, Some c)"
  shows "(\<exists>pushed popped c'. run cell c ops = Some (pushed, popped, c') \<and>
            popped = take (length popped) pushed) \<and>
         (int (length xs) = n \<longrightarrow>
            (\<exists>c'. run cell c (map Push xs @ replicate (length xs) Pop) = Some (xs, xs, c') \<and>
                  circular_buffer_is_empty (Some c') = Inr 1))"
proof -
  have i: "cb_inv c" "len c = 0" "maxlen c = n" "contents c = []"
    using init_inv[OF assms(1,3)] by simp_all
  from run_fifo[OF i(1), of cell ops] obtain pu po cf where
    r: "run cell c ops = Some (pu, po, cf)" "contents c @ pu = po @ contents cf"
    by blast
  have "pu = po @ contents cf" using r(2) i(4) by simp
  then have "po = take (length po) pu" by simp
  then have A: "\<exists>pushed popped c'. run cell c ops = Some (pushed, popped, c') \<and>
            popped = take (length popped) pushed"
    using r(1) by blast
  have B: "\<exists>c'. run cell c (map Push xs @ replicate (length xs) Pop) = Some (xs, xs, c') \<and>
                  circular_buffer_is_empty (Some c') = Inr 1" if l: "int (length xs) = n"
  proof -
    have "len c + int (length xs) \<le> maxlen c" using i l by simp
    from run_pushes[OF i(1) this, of cell "replicate (length xs) Pop"] obtain c1 where
      c1: "cb_inv c1" "len c1 = len c + int (length xs)" "contents c1 = contents c @ xs"
        "run cell c (map Push xs @ replicate (length xs) Pop) =
            (case run cell c1 (replicate (length xs) Pop) of
               None \<Rightarrow> None
             | Some (pushed, popped, cf) \<Rightarrow> Some (xs @ pushed, popped, cf))"
      by blast
    have "int (length xs) \<le> len c1" using c1(2) i(2) by simp
    from run_pops[OF c1(1) this, of cell] obtain c2 where
      c2: "cb_inv c2" "len c2 = len c1 - int (length xs)"
        "run cell c1 (replicate (length xs) Pop) = Some ([], take (length xs) (contents c1), c2)"
      by blast
    have "run cell c (map Push xs @ replicate (length xs) Pop) = Some (xs, xs, c2)"
      using c1(3,4) c2(3) i(4) by simp
    moreover have "len c2 = 0" using c2(2) c1(2) i(2) by simp
    ultimately show ?thesis
      by (simp add: circular_buffer_is_empty_def)
  qed
  show ?thesis using A B by blast
qed

theorem fifo_order_witness:
  "c_int 3 \<and> (1::int) \<le> 3 \<and>
   circular_buffer_init demo_heap (Some demo_raw) 3 = (Inr 0, Some demo_fresh) \<and>
   run 0 demo_fresh [Push 1, Push 2, Push 3, Push 4, Pop, Push 5, Pop, Pop, Pop, Pop]
     = Some ([1, 2, 3, 5], [1, 2, 3, 5],
             \<lparr>buffer = [5, 2, 3], head = 0, tail = 0, len = 0, maxlen = 3\<rparr>) \<and>
   (\<exists>c'. run 0 demo_fresh (map Push [4, 5, 6] @ replicate (length [4, 5, 6 :: nat]) Pop)
           = Some ([4, 5, 6], [4, 5, 6], c') \<and>
         circular_buffer_is_empty (Some c') = Inr 1)"
proof -
  have a: "c_int 3" by (simp add: c_int_def INT_MIN_def INT_MAX_def)
  have b: "(1::int) \<le> 3" by simp
  have c: "circular_buffer_init demo_heap (Some demo_raw) 3 = (Inr 0, Some demo_fresh)"
    by (simp add: circular_buffer_init_def malloc_def demo_heap_def demo_raw_def demo_fresh_def
        sizeof_ptr_def SIZE_MOD_def PTRDIFF_MAX_def upt_rec)
  have d: "run 0 demo_fresh [Push 1, Push 2, Push 3, Push 4, Pop, Push 5, Pop, Pop, Pop, Pop]
     = Some ([1, 2, 3, 5], [1, 2, 3, 5],
             \<lparr>buffer = [5, 2, 3], head = 0, tail = 0, len = 0, maxlen = 3\<rparr>)"
    by (simp add: demo_fresh_def circular_buffer_push_def circular_buffer_pop_def
        circular_buffer_is_full_def circular_buffer_is_empty_def next_index_def c_add_def
        c_rem_def c_int_def INT_MIN_def INT_MAX_def load_def store_def signed_modulo_int_def)
  show ?thesis
    using fifo_order[OF a b c, of 0 "[Push 1, Push 2, Push 3, Push 4, Pop, Push 5, Pop, Pop, Pop, Pop]" "[4, 5, 6]"]
      a b c d by simp
qed

subsection \<open>The invariant is kept by every call\<close>

lemma inv_load_tail:
  assumes "cb_inv c" "0 < len c"
  shows "load (buffer c) (tail c) = Some (buffer c ! nat (tail c))"
  using assms by (auto simp: load_def cb_inv_def)

lemma inv_next_tail:
  assumes "cb_inv c" "0 < len c"
  shows "(if len c > 1 then next_index (tail c) (maxlen c) else Some (tail c))
           = Some (if 1 < len c then (tail c + 1) mod maxlen c else tail c)"
proof -
  have "0 \<le> tail c" "tail c < maxlen c" "maxlen c \<le> INT_MAX"
    using assms by (auto simp: cb_inv_def)
  then show ?thesis by (simp add: next_index_Some)
qed

lemma inv_dec_len:
  assumes "cb_inv c" "0 < len c"
  shows "c_add (len c) (- 1) = Some (len c - 1)"
  using assms by (auto simp: cb_inv_def c_add_def c_int_def INT_MAX_def INT_MIN_def)

lemma inv_popped:
  assumes "cb_inv c" "0 < len c"
  shows "cb_inv (c\<lparr>tail := (if 1 < len c then (tail c + 1) mod maxlen c else tail c),
                    len := len c - 1\<rparr>)"
proof -
  have ne: "len c \<noteq> 0" using assms(2) by simp
  show ?thesis using pop_inv[OF assms(1) ne pop_ok[OF assms(1) ne, of undefined]] .
qed

lemma inv_next_head:
  assumes "cb_inv c" "len c < maxlen c"
  shows "(if len c > 0 then next_index (head c) (maxlen c) else Some (head c))
           = Some (if 0 < len c then (head c + 1) mod maxlen c else head c)"
proof -
  have "0 \<le> head c" "head c < maxlen c" "maxlen c \<le> INT_MAX"
    using assms by (auto simp: cb_inv_def)
  then show ?thesis by (simp add: next_index_Some)
qed

lemma inv_store_head:
  assumes "cb_inv c" "len c < maxlen c"
  defines "h \<equiv> (if 0 < len c then (head c + 1) mod maxlen c else head c)"
  shows "store (buffer c) h v = Some ((buffer c)[nat h := v])"
proof -
  have "0 \<le> head c" "head c < maxlen c" "0 < maxlen c" "int (length (buffer c)) = maxlen c"
    using assms by (auto simp: cb_inv_def)
  then have "0 \<le> h" "h < int (length (buffer c))" by (auto simp: h_def)
  then show ?thesis by (simp add: store_def)
qed

lemma inv_inc_len:
  assumes "cb_inv c" "len c < maxlen c"
  shows "c_add (len c) 1 = Some (len c + 1)"
  using assms by (auto simp: cb_inv_def c_add_def c_int_def INT_MAX_def INT_MIN_def)

lemma inv_pushed:
  assumes "cb_inv c" "len c < maxlen c"
  shows "cb_inv (c\<lparr>head := (if 0 < len c then (head c + 1) mod maxlen c else head c),
                    buffer := (buffer c)[nat (if 0 < len c then (head c + 1) mod maxlen c else head c) := v],
                    len := len c + 1\<rparr>)"
proof -
  have ne: "len c \<noteq> maxlen c" using assms(2) by simp
  show ?thesis using push_inv[OF assms(1) ne push_ok[OF assms(1) ne]] .
qed

lemma get_data_loop_inv:
  "cb_inv c \<Longrightarrow> get_data_loop c d n offset count = Some (c', d', k) \<Longrightarrow> cb_inv c'"
proof (induction c d n offset count rule: get_data_loop.induct)
  case (1 c d n offset count)
  show ?case
  proof (cases "0 < len c")
    case False
    then have "get_data_loop c d n offset count = Some (c, d, count)"
      by (subst get_data_loop.simps) simp
    then show ?thesis using "1.prems" by simp
  next
    case True
    note lt = inv_load_tail[OF "1.prems"(1) True] and nt = inv_next_tail[OF "1.prems"(1) True]
      and dl = inv_dec_len[OF "1.prems"(1) True] and ip = inv_popped[OF "1.prems"(1) True]
    show ?thesis
    proof (cases "c_add count offset")
      case None
      then have "get_data_loop c d n offset count = None"
        using True by (subst get_data_loop.simps) simp
      then show ?thesis using "1.prems" by simp
    next
      case (Some s)
      show ?thesis
      proof (cases "s < n")
        case False
        then have "get_data_loop c d n offset count = Some (c, d, count)"
          using True Some by (subst get_data_loop.simps) simp
        then show ?thesis using "1.prems" by simp
      next
        case sn: True
        have ca: "c_add offset count = Some s"
          using Some by (simp add: c_add_def add.commute[of offset count] split: if_splits)
        show ?thesis
        proof (cases "store d s (buffer c ! nat (tail c))")
          case None
          then have "get_data_loop c d n offset count = None"
            using True Some sn lt ca by (subst get_data_loop.simps) simp
          then show ?thesis using "1.prems" by simp
        next
          case st: (Some d1)
          show ?thesis
          proof (cases "c_add count 1")
            case None
            then have "get_data_loop c d n offset count = None"
              using True Some sn lt ca st by (subst get_data_loop.simps) simp
            then show ?thesis using "1.prems" by simp
          next
            case c1: (Some count1)
            have "get_data_loop c d n offset count =
                    get_data_loop (c\<lparr>tail := (if 1 < len c then (tail c + 1) mod maxlen c else tail c),
                                     len := len c - 1\<rparr>) d1 n offset count1"
              using True Some sn lt ca st c1 nt dl by (subst get_data_loop.simps) simp
            then have "get_data_loop (c\<lparr>tail := (if 1 < len c then (tail c + 1) mod maxlen c else tail c),
                                     len := len c - 1\<rparr>) d1 n offset count1 = Some (c', d', k)"
              using "1.prems"(2) by simp
            from "1.IH"[OF True Some sn lt ca st c1 nt dl ip this] show ?thesis .
          qed
        qed
      qed
    qed
  qed
qed

lemma set_data_loop_inv:
  "cb_inv c \<Longrightarrow> set_data_loop c src n offset count = Some (c', k) \<Longrightarrow> cb_inv c'"
proof (induction c src n offset count rule: set_data_loop.induct)
  case (1 c src n offset count)
  show ?case
  proof (cases "len c < maxlen c")
    case False
    then have "set_data_loop c src n offset count = Some (c, count)"
      by (subst set_data_loop.simps) simp
    then show ?thesis using "1.prems" by simp
  next
    case True
    let ?h = "(if 0 < len c then (head c + 1) mod maxlen c else head c)"
    note nh = inv_next_head[OF "1.prems"(1) True] and il = inv_inc_len[OF "1.prems"(1) True]
    show ?thesis
    proof (cases "c_add count offset")
      case None
      then have "set_data_loop c src n offset count = None"
        using True by (subst set_data_loop.simps) simp
      then show ?thesis using "1.prems" by simp
    next
      case (Some s)
      show ?thesis
      proof (cases "s < n")
        case False
        then have "set_data_loop c src n offset count = Some (c, count)"
          using True Some by (subst set_data_loop.simps) simp
        then show ?thesis using "1.prems" by simp
      next
        case sn: True
        have ca: "c_add offset count = Some s"
          using Some by (simp add: c_add_def add.commute[of offset count] split: if_splits)
        show ?thesis
        proof (cases "load src s")
          case None
          then have "set_data_loop c src n offset count = None"
            using True Some sn nh ca by (subst set_data_loop.simps) simp
          then show ?thesis using "1.prems" by simp
        next
          case ld: (Some v)
          note st = inv_store_head[OF "1.prems"(1) True, of v] and ip = inv_pushed[OF "1.prems"(1) True, of v]
          show ?thesis
          proof (cases "c_add count 1")
            case None
            then have "set_data_loop c src n offset count = None"
              using True Some sn nh ca ld by (subst set_data_loop.simps) simp
            then show ?thesis using "1.prems" by simp
          next
            case c1: (Some count1)
            have "set_data_loop c src n offset count =
                    set_data_loop (c\<lparr>head := ?h, buffer := (buffer c)[nat ?h := v],
                                     len := len c + 1\<rparr>) src n offset count1"
              using True Some sn nh ca ld c1 st il by (subst set_data_loop.simps) simp
            then have "set_data_loop (c\<lparr>head := ?h, buffer := (buffer c)[nat ?h := v],
                                     len := len c + 1\<rparr>) src n offset count1 = Some (c', k)"
              using "1.prems"(2) by simp
            from "1.IH"[OF True Some sn nh ca ld c1 st il ip this] show ?thesis .
          qed
        qed
      qed
    qed
  qed
qed

lemma peek_state:
  "circular_buffer_peek (Some c) d n offset offset_cb = Some (r, s, out) \<Longrightarrow> s = Some c"
  by (auto simp: circular_buffer_peek_def split: option.splits if_splits)

lemma push_step_inv:
  assumes "cb_inv c" "circular_buffer_push (Some c) x = Some (r, Some c')"
  shows "cb_inv c'"
proof (cases "len c = maxlen c")
  case True
  then show ?thesis using assms push_full[OF True, of x] by simp
next
  case False
  then show ?thesis using push_inv[OF assms(1) False assms(2)] by simp
qed

lemma pop_step_inv:
  assumes "cb_inv c" "circular_buffer_pop (Some c) data = Some (r, Some c', out)"
  shows "cb_inv c'"
proof (cases data)
  case None
  then show ?thesis using assms by (simp add: circular_buffer_pop_def)
next
  case (Some cell)
  show ?thesis
  proof (cases "len c = 0")
    case True
    then show ?thesis using assms Some pop_empty[OF True, of cell] by simp
  next
    case False
    then show ?thesis using pop_inv[OF assms(1) False, of cell] assms(2) Some by simp
  qed
qed

lemma clear_inv:
  assumes "cb_inv c"
  shows "cb_inv (c\<lparr>head := 0, tail := 0, len := 0\<rparr>)"
  using assms by (auto simp: cb_inv_def)

lemma get_data_inv:
  assumes "cb_inv c" "circular_buffer_get_data (Some c) data_buf n offset = Some (r, Some c', out)"
  shows "cb_inv c'"
proof (cases "data_buf = None \<or> n \<le> 0")
  case True
  then show ?thesis using assms
    by (auto simp: circular_buffer_get_data_def split: option.splits)
next
  case False
  then obtain d0 d' k where "get_data_loop c d0 n offset 0 = Some (c', d', k)"
    using assms(2) by (auto simp: circular_buffer_get_data_def split: option.splits)
  then show ?thesis using get_data_loop_inv[OF assms(1)] by blast
qed

lemma set_data_inv:
  assumes "cb_inv c" "circular_buffer_set_data (Some c) data_buf n offset = Some (r, Some c')"
  shows "cb_inv c'"
proof (cases "data_buf = None \<or> n < 0")
  case True
  then show ?thesis using assms
    by (auto simp: circular_buffer_set_data_def split: option.splits)
next
  case False
  then obtain src k where "set_data_loop c src n offset 0 = Some (c', k)"
    using assms(2) by (auto simp: circular_buffer_set_data_def split: option.splits)
  then show ?thesis using set_data_loop_inv[OF assms(1)] by blast
qed

lemma step_inv:
  assumes "cb_inv c" "step c a = Some c'"
  shows "cb_inv c'"
proof (cases a)
  case (CallPush x)
  then show ?thesis using assms push_step_inv[OF assms(1)]
    by (auto split: option.splits prod.splits)
next
  case (CallPop cell)
  then show ?thesis using assms pop_step_inv[OF assms(1)]
    by (auto split: option.splits prod.splits)
next
  case CallClear
  then show ?thesis using assms clear_inv[OF assms(1)]
    by (auto simp: circular_buffer_empty_def)
next
  case (CallDrainInto d n offset)
  then show ?thesis using assms get_data_inv[OF assms(1)]
    by (auto split: option.splits prod.splits)
next
  case (CallFillFrom src n offset)
  then show ?thesis using assms set_data_inv[OF assms(1)]
    by (auto split: option.splits prod.splits)
next
  case (CallPeek d n offset offset_cb)
  then show ?thesis using assms peek_state[of c d n offset offset_cb]
    by (auto split: option.splits prod.splits)
next
  case CallIsEmpty
  then show ?thesis using assms by (auto split: sum.splits)
next
  case CallIsFull
  then show ?thesis using assms by (auto split: sum.splits)
qed

lemma steps_inv:
  "cb_inv c \<Longrightarrow> steps c calls = Some c' \<Longrightarrow> cb_inv c'"
proof (induction calls arbitrary: c)
  case Nil
  then show ?case by simp
next
  case (Cons a calls)
  then obtain c1 where s: "step c a = Some c1" "steps c1 calls = Some c'"
    by (auto split: option.splits)
  from Cons.IH[OF step_inv[OF Cons.prems(1) s(1)] s(2)] show ?case .
qed

text \<open>
  Claim C4. Every buffer reached from a successful \<^verbatim>\<open>circular_buffer_init\<close> by any sequence of
  calls of push, pop, clear, the bulk reader and writer, peek and the two queries, with any
  arguments for which the calls are defined, has \<open>0 \<le> len \<le> maxlen\<close>; \<open>head = tail\<close> when
  \<open>len = 0\<close>; and, when \<open>len > 0\<close>, \<open>head = (tail + len - 1) mod maxlen\<close> with \<open>head\<close> and
  \<open>tail\<close> both in \<open>[0, maxlen)\<close>.
\<close>

theorem reachable_invariant:
  assumes "c_int n"
    and "circular_buffer_init h (Some c0) n = (Inr 0, Some c)"
    and "steps c calls = Some c'"
  shows "0 \<le> len c' \<and> len c' \<le> maxlen c' \<and>
         (len c' = 0 \<longrightarrow> head c' = tail c') \<and>
         (0 < len c' \<longrightarrow> head c' = (tail c' + len c' - 1) mod maxlen c' \<and>
            0 \<le> head c' \<and> head c' < maxlen c' \<and> 0 \<le> tail c' \<and> tail c' < maxlen c')"
proof -
  have "cb_inv c" using init_inv[OF assms(1,2)] by simp
  from steps_inv[OF this assms(3)] have "cb_inv c'" .
  then show ?thesis by (auto simp: cb_inv_def)
qed

theorem reachable_invariant_witness:
  "c_int 2 \<and> circular_buffer_init ptr_heap (Some ptr_raw) 2 = (Inr 0, Some ptr_fresh) \<and>
   steps ptr_fresh demo_calls = Some demo_final \<and>
   0 < len demo_final \<and> len demo_final \<le> maxlen demo_final \<and>
   head demo_final = (tail demo_final + len demo_final - 1) mod maxlen demo_final \<and>
   0 \<le> head demo_final \<and> head demo_final < maxlen demo_final \<and>
   0 \<le> tail demo_final \<and> tail demo_final < maxlen demo_final"
proof -
  have a: "c_int 2" by (simp add: c_int_def INT_MIN_def INT_MAX_def)
  have b: "circular_buffer_init ptr_heap (Some ptr_raw) 2 = (Inr 0, Some ptr_fresh)"
    by code_simp
  have c: "steps ptr_fresh demo_calls = Some demo_final"
    by code_simp
  have d: "0 < len demo_final" by (simp add: demo_final_def)
  show ?thesis
    using reachable_invariant[OF a b c] a b c d by simp
qed

subsection \<open>The bulk writer\<close>

lemma set_data_loop_run:
  assumes "j = nat (min (n - offset - count) (maxlen c - len c))"
    and "cb_inv c" "0 \<le> count" "0 \<le> offset" "offset + count \<le> n" "n \<le> INT_MAX"
    and "n \<le> int (length src)"
  shows "\<exists>c'. set_data_loop c src n offset count = Some (c', count + int j) \<and>
              push_all c (take j (drop (nat (offset + count)) src)) = Some c' \<and>
              cb_inv c' \<and>
              contents c' = contents c @ take j (drop (nat (offset + count)) src)"
  using assms
proof (induction j arbitrary: c count)
  case 0
  have le: "len c \<le> maxlen c" using "0.prems"(2) by (simp add: cb_inv_def)
  have stop: "len c = maxlen c \<or> n = offset + count"
    using "0.prems"(1,5) le by (auto simp: min_def split: if_splits)
  have "c_add count offset = Some (count + offset)"
    using "0.prems" by (simp add: c_add_def c_int_def INT_MIN_def INT_MAX_def)
  then have "set_data_loop c src n offset count = Some (c, count)"
    using stop by (subst set_data_loop.simps) auto
  then show ?case using "0.prems"(2) by simp
next
  case (Suc j)
  have lt: "len c < maxlen c" and sn: "count + offset < n"
    using Suc.prems(1) by (auto simp: min_def split: if_splits)
  let ?s = "count + offset"
  let ?v = "src ! nat ?s"
  let ?h = "(if 0 < len c then (head c + 1) mod maxlen c else head c)"
  let ?c = "c\<lparr>head := ?h, buffer := (buffer c)[nat ?h := ?v], len := len c + 1\<rparr>"
  have ne: "len c \<noteq> maxlen c" using lt by simp
  have a1: "c_add count offset = Some ?s" "c_add offset count = Some ?s"
    using Suc.prems sn by (simp_all add: c_add_def c_int_def INT_MIN_def INT_MAX_def add.commute[of offset count])
  have a2: "c_add count 1 = Some (count + 1)"
    using Suc.prems sn by (simp add: c_add_def c_int_def INT_MIN_def INT_MAX_def)
  have ld: "load src ?s = Some ?v"
    using Suc.prems sn by (simp add: load_def)
  note nh = inv_next_head[OF Suc.prems(2) lt] and il = inv_inc_len[OF Suc.prems(2) lt]
    and st = inv_store_head[OF Suc.prems(2) lt, of ?v] and ip = inv_pushed[OF Suc.prems(2) lt, of ?v]
  have unfold: "set_data_loop c src n offset count = set_data_loop ?c src n offset (count + 1)"
    using lt sn a1 a2 ld nh st il by (subst set_data_loop.simps) simp
  have p: "circular_buffer_push (Some c) ?v = Some (Inr 0, Some ?c)"
    using push_ok[OF Suc.prems(2) ne] .
  have k: "contents ?c = contents c @ [?v]"
    using push_contents[OF Suc.prems(2) ne p] .
  have j: "j = nat (min (n - offset - (count + 1)) (maxlen ?c - len ?c))"
    using Suc.prems(1) by (simp add: min_def split: if_splits)
  have "0 \<le> count + 1" "offset + (count + 1) \<le> n"
    using Suc.prems sn by simp_all
  from Suc.IH[OF j ip this(1) Suc.prems(4) this(2) Suc.prems(6,7)] obtain c' where
    c': "set_data_loop ?c src n offset (count + 1) = Some (c', count + 1 + int j)"
      "push_all ?c (take j (drop (nat (offset + (count + 1))) src)) = Some c'"
      "cb_inv c'"
      "contents c' = contents ?c @ take j (drop (nat (offset + (count + 1))) src)"
    by blast
  have i: "nat (offset + (count + 1)) = Suc (nat (offset + count))" "nat ?s = nat (offset + count)"
    using Suc.prems by (simp_all add: add.commute[of offset count])
  have "nat (offset + count) < length src"
    using Suc.prems sn by (simp add: add.commute[of offset count])
  then have dr: "take (Suc j) (drop (nat (offset + count)) src)
                   = ?v # take j (drop (nat (offset + (count + 1))) src)"
    unfolding i by (simp add: Cons_nth_drop_Suc[symmetric])
  have "set_data_loop c src n offset count = Some (c', count + int (Suc j))"
    using unfold c'(1) by simp
  moreover have "push_all c (take (Suc j) (drop (nat (offset + count)) src)) = Some c'"
    unfolding dr using p c'(2) by simp
  moreover have "contents c' = contents c @ take (Suc j) (drop (nat (offset + count)) src)"
    unfolding dr using c'(4) k by simp
  ultimately show ?case using c'(3) by blast
qed

text \<open>
  Claim C8. On a buffer that satisfies the representation invariant, with a source array of
  at least \<open>n\<close> elements and \<open>0 \<le> offset \<le> n\<close>, \<^verbatim>\<open>circular_buffer_set_data\<close> returns the count
  \<open>k = min (n - offset) (maxlen - len)\<close>: it stops when the buffer is full or when
  \<open>offset + count\<close> reaches \<open>n\<close>. The buffer it leaves is the one that \<open>k\<close> successful calls
  of \<^verbatim>\<open>circular_buffer_push\<close> with the elements \<open>src[offset], src[offset + 1], \<dots>\<close> leave, so
  these elements are appended to the queue. With \<open>n = offset\<close> the call returns 0 and
  changes nothing. For all arguments, the call reports \<^verbatim>\<open>EINVAL\<close> exactly when the buffer or
  the source is \<^verbatim>\<open>NULL\<close> or \<open>n < 0\<close>.
\<close>

theorem set_data_behaviour:
  assumes "cb_inv c" and "c_int n" and "0 \<le> offset" and "offset \<le> n"
    and "n \<le> int (length src)"
  shows "(\<exists>c'. circular_buffer_set_data (Some c) (Some src) n offset =
                 Some (Inr (min (n - offset) (maxlen c - len c)), Some c') \<and>
               push_all c (take (nat (min (n - offset) (maxlen c - len c)))
                             (drop (nat offset) src)) = Some c' \<and>
               contents c' = contents c @ take (nat (min (n - offset) (maxlen c - len c)))
                                             (drop (nat offset) src) \<and>
               (n = offset \<longrightarrow> c' = c)) \<and>
         ((\<exists>s. circular_buffer_set_data c_buf data_buf m off = Some (Inl EINVAL, s))
            \<longleftrightarrow> c_buf = None \<or> data_buf = None \<or> m < 0)"
proof -
  let ?k = "min (n - offset) (maxlen c - len c)"
  have n: "0 \<le> n" "n \<le> INT_MAX" using assms by (simp_all add: c_int_def)
  have k0: "0 \<le> ?k" using assms by (simp add: cb_inv_def)
  have "nat ?k = nat (min (n - offset - 0) (maxlen c - len c))" by simp
  from set_data_loop_run[OF this assms(1) _ assms(3) _ n(2) assms(5)] assms(4)
  obtain c' where
    c': "set_data_loop c src n offset 0 = Some (c', 0 + int (nat ?k))"
      "push_all c (take (nat ?k) (drop (nat (offset + 0)) src)) = Some c'"
      "contents c' = contents c @ take (nat ?k) (drop (nat (offset + 0)) src)"
    by auto
  have r: "circular_buffer_set_data (Some c) (Some src) n offset = Some (Inr ?k, Some c')"
    using c'(1) n(1) k0 by (simp add: circular_buffer_set_data_def)
  have same: "c' = c" if "n = offset"
    using c'(2) that k0 by simp
  have A: "\<exists>c'. circular_buffer_set_data (Some c) (Some src) n offset = Some (Inr ?k, Some c') \<and>
               push_all c (take (nat ?k) (drop (nat offset) src)) = Some c' \<and>
               contents c' = contents c @ take (nat ?k) (drop (nat offset) src) \<and>
               (n = offset \<longrightarrow> c' = c)"
    using r c'(2,3) same by auto
  have B: "(\<exists>s. circular_buffer_set_data c_buf data_buf m off = Some (Inl EINVAL, s))
            \<longleftrightarrow> c_buf = None \<or> data_buf = None \<or> m < 0"
    by (auto simp: circular_buffer_set_data_def split: option.splits)
  show ?thesis using A B by blast
qed

theorem set_data_behaviour_witness:
  "cb_inv demo_one \<and> c_int 4 \<and> (0::int) \<le> 1 \<and> (1::int) \<le> 4 \<and>
   4 \<le> int (length [7, 8, 9, 10 :: nat]) \<and>
   circular_buffer_set_data (Some demo_one) (Some [7, 8, 9, 10]) 4 1 = Some (Inr 2, Some demo_full) \<and>
   contents demo_full = contents demo_one @ [8, 9]"
proof -
  have a: "cb_inv demo_one"
    by (simp add: cb_inv_def demo_one_def INT_MAX_def)
  have b: "c_int 4" by (simp add: c_int_def INT_MIN_def INT_MAX_def)
  have c: "(0::int) \<le> 1" "(1::int) \<le> 4" "4 \<le> int (length [7, 8, 9, 10 :: nat])"
    by simp_all
  have k: "min (4 - 1) (maxlen demo_one - len demo_one) = 2"
    by (simp add: demo_one_def)
  have p: "push_all demo_one (take (nat 2) (drop (nat 1) [7, 8, 9, 10])) = Some demo_full"
    by code_simp
  from set_data_behaviour[OF a b c, of None None 0 0] obtain c' where
    c': "circular_buffer_set_data (Some demo_one) (Some [7, 8, 9, 10]) 4 1 = Some (Inr 2, Some c')"
      "push_all demo_one (take (nat 2) (drop (nat 1) [7, 8, 9, 10])) = Some c'"
      "contents c' = contents demo_one @ take (nat 2) (drop (nat 1) [7, 8, 9, 10])"
    unfolding k by blast
  have "c' = demo_full" using c'(2) p by simp
  then show ?thesis using a b c'(1,3) by simp
qed

subsection \<open>The bulk reader\<close>

lemma length_memset_bytes: "length (memset_bytes a c n) = length a"
  by (induction a c n rule: memset_bytes.induct) simp_all

lemma get_data_loop_run:
  assumes "j = nat (min (len c) (n - offset - count))"
    and "cb_inv c" "0 \<le> count" "0 \<le> offset" "offset + count \<le> n" "n \<le> INT_MAX"
    and "n \<le> int (length d)"
  shows "\<exists>c'. get_data_loop c d n offset count =
                Some (c',
                      take (nat (offset + count)) d @ take j (contents c)
                        @ drop (nat (offset + count) + j) d,
                      count + int j) \<and>
              run cell c (replicate j Pop) = Some ([], take j (contents c), c') \<and>
              cb_inv c' \<and> contents c' = drop j (contents c)"
  using assms
proof (induction j arbitrary: c d count cell)
  case 0
  have ge: "0 \<le> len c" using "0.prems"(2) by (simp add: cb_inv_def)
  have stop: "len c = 0 \<or> n = offset + count"
    using "0.prems"(1,5) ge by (auto simp: min_def split: if_splits)
  have "c_add count offset = Some (count + offset)"
    using "0.prems" by (simp add: c_add_def c_int_def INT_MIN_def INT_MAX_def)
  then have "get_data_loop c d n offset count = Some (c, d, count)"
    using stop by (subst get_data_loop.simps) auto
  then show ?case using "0.prems"(2) by simp
next
  case (Suc j)
  have lt: "0 < len c" and sn: "count + offset < n"
    using Suc.prems(1) by (auto simp: min_def split: if_splits)
  let ?s = "count + offset"
  let ?v = "buffer c ! nat (tail c)"
  let ?c = "c\<lparr>tail := (if 1 < len c then (tail c + 1) mod maxlen c else tail c),
              len := len c - 1\<rparr>"
  let ?d = "d[nat ?s := ?v]"
  have ne: "len c \<noteq> 0" using lt by simp
  have a1: "c_add count offset = Some ?s" "c_add offset count = Some ?s"
    using Suc.prems sn
    by (simp_all add: c_add_def c_int_def INT_MIN_def INT_MAX_def add.commute[of offset count])
  have a2: "c_add count 1 = Some (count + 1)"
    using Suc.prems sn by (simp add: c_add_def c_int_def INT_MIN_def INT_MAX_def)
  have sl: "nat ?s < length d" using Suc.prems sn by simp
  have st: "store d ?s ?v = Some ?d"
    using Suc.prems sn by (simp add: store_def)
  note lt' = inv_load_tail[OF Suc.prems(2) lt] and nt = inv_next_tail[OF Suc.prems(2) lt]
    and dl = inv_dec_len[OF Suc.prems(2) lt] and ip = inv_popped[OF Suc.prems(2) lt]
  have unfold: "get_data_loop c d n offset count = get_data_loop ?c ?d n offset (count + 1)"
    using lt sn a1 a2 lt' st nt dl by (subst get_data_loop.simps) simp
  have p: "circular_buffer_pop (Some c) (Some cell) = Some (Inr 0, Some ?c, Some ?v)"
    using pop_ok[OF Suc.prems(2) ne] .
  have k: "contents c = ?v # contents ?c"
    using contents_Cons[OF Suc.prems(2) ne] .
  have j: "j = nat (min (len ?c) (n - offset - (count + 1)))"
    using Suc.prems(1) by (simp add: min_def split: if_splits)
  have b: "0 \<le> count + 1" "offset + (count + 1) \<le> n" "n \<le> int (length ?d)"
    using Suc.prems sn by simp_all
  from Suc.IH[OF j ip b(1) Suc.prems(4) b(2) Suc.prems(6) b(3), of ?v] obtain c' where
    c': "get_data_loop ?c ?d n offset (count + 1) =
           Some (c',
                 take (nat (offset + (count + 1))) ?d @ take j (contents ?c)
                   @ drop (nat (offset + (count + 1)) + j) ?d,
                 count + 1 + int j)"
      "run ?v ?c (replicate j Pop) = Some ([], take j (contents ?c), c')"
      "cb_inv c'" "contents c' = drop j (contents ?c)"
    by blast
  have i: "nat (offset + (count + 1)) = Suc (nat ?s)" "nat (offset + count) = nat ?s"
    using Suc.prems by (simp_all add: add.commute[of offset count])
  have t: "take (Suc (nat ?s)) ?d = take (nat ?s) d @ [?v]"
    using sl by (simp add: take_Suc_conv_app_nth)
  have dr: "drop (Suc (nat ?s) + j) ?d = drop (nat ?s + Suc j) d"
    by simp
  have tk: "take (Suc j) (contents c) = ?v # take j (contents ?c)"
    by (subst k) simp
  have dest: "take (nat (offset + (count + 1))) ?d @ take j (contents ?c)
                @ drop (nat (offset + (count + 1)) + j) ?d
              = take (nat (offset + count)) d @ take (Suc j) (contents c)
                @ drop (nat (offset + count) + Suc j) d"
    unfolding i t dr tk by simp
  have "get_data_loop c d n offset count =
          Some (c',
                take (nat (offset + count)) d @ take (Suc j) (contents c)
                  @ drop (nat (offset + count) + Suc j) d,
                count + int (Suc j))"
    using unfold c'(1) dest by simp
  moreover have "run cell c (replicate (Suc j) Pop) = Some ([], take (Suc j) (contents c), c')"
    unfolding tk using p c'(2) by simp
  moreover have "contents c' = drop (Suc j) (contents c)"
    using c'(4) by (subst k) simp
  ultimately show ?case using c'(3) by blast
qed

text \<open>
  What \<^verbatim>\<open>circular_buffer_get_data\<close> does beyond the clearing: on a buffer that satisfies the
  representation invariant, with \<open>0 \<le> offset < n\<close> and an array \<open>d\<close> of at least \<open>n\<close> slots
  that \<^verbatim>\<open>memset\<close> turns into \<open>d0\<close>, the call returns \<open>k = min len (n - offset)\<close>, leaves the
  buffer that \<open>k\<close> successful pops leave, and writes the \<open>k\<close> oldest elements, oldest
  first, to the slots \<open>offset, \<dots>, offset + k - 1\<close>; every other slot is as in \<open>d0\<close>.
\<close>

lemma get_data_drains:
  assumes "cb_inv c" and "c_int n" and "0 \<le> offset" and "offset < n"
    and "n \<le> int (length d)" and "memset d 0 n = Some d0"
  shows "\<exists>c'. circular_buffer_get_data (Some c) (Some d) n offset =
               Some (Inr (min (len c) (n - offset)), Some c',
                     Some (take (nat offset) d0
                             @ take (nat (min (len c) (n - offset))) (contents c)
                             @ drop (nat offset + nat (min (len c) (n - offset))) d0)) \<and>
             run cell c (replicate (nat (min (len c) (n - offset))) Pop) =
               Some ([], take (nat (min (len c) (n - offset))) (contents c), c')"
proof -
  let ?k = "min (len c) (n - offset)"
  have n: "0 < n" "n \<le> INT_MAX" using assms by (simp_all add: c_int_def)
  have k0: "0 \<le> ?k" using assms by (simp add: cb_inv_def)
  have l: "length d0 = length d"
    using assms(6) by (auto simp: memset_def length_memset_bytes split: if_splits)
  have "nat ?k = nat (min (len c) (n - offset - 0))" by simp
  from get_data_loop_run[OF this assms(1) _ assms(3) _ n(2), of d0 cell] assms(4,5) l
  obtain c' where
    c': "get_data_loop c d0 n offset 0 =
           Some (c', take (nat (offset + 0)) d0 @ take (nat ?k) (contents c)
                       @ drop (nat (offset + 0) + nat ?k) d0, 0 + int (nat ?k))"
      "run cell c (replicate (nat ?k) Pop) = Some ([], take (nat ?k) (contents c), c')"
    by auto
  have "circular_buffer_get_data (Some c) (Some d) n offset =
               Some (Inr ?k, Some c',
                     Some (take (nat offset) d0 @ take (nat ?k) (contents c)
                             @ drop (nat offset + nat ?k) d0))"
    using c'(1) n(1) k0 assms(6) by (simp add: circular_buffer_get_data_def)
  then show ?thesis using c'(2) by blast
qed

text \<open>
  Claim C7 says that the bulk reader clears the whole destination, so that the slots it
  does not write are zero. The code clears \<^verbatim>\<open>len\<close> bytes, not \<^verbatim>\<open>len\<close> slots: draining a
  buffer that holds \<open>A\<close> alone into an array of three slots that hold the stale pointer
  \<open>D\<close> returns 1 and leaves \<open>A, D, D\<close>, where the claim gives \<open>A, 0, 0\<close>.
\<close>

theorem get_data_stale_slots:
  "circular_buffer_get_data (Some demo_a) (Some [pD, pD, pD]) 3 0
     = Some (Inr 1, Some (demo_a\<lparr>len := 0\<rparr>), Some [pA, pD, pD]) \<and>
   [pA, pD, pD] \<noteq> [pA, null_ptr, null_ptr]"
  by code_simp

subsection \<open>Peek\<close>

text \<open>
  Claim C10. The argument \<^verbatim>\<open>offset_cb\<close> of \<^verbatim>\<open>circular_buffer_peek\<close> has no effect: two calls that
  differ in it alone return the same count and leave the same array (and the same buffer).
\<close>

theorem peek_offset_cb_unused:
  "circular_buffer_peek c_buf d n offset a = circular_buffer_peek c_buf d n offset b"
  by (simp add: circular_buffer_peek_def)

lemma peek_loop_run:
  assumes "j = nat (min (len c - count) (n - offset - count))"
    and "cb_inv c" "0 \<le> count" "0 \<le> offset" "offset + count \<le> n" "n \<le> INT_MAX"
    and "n \<le> int (length d)"
    and "count < len c \<longrightarrow> i = (tail c + count) mod maxlen c"
  shows "peek_loop c d n offset count i =
           Some (take (nat (offset + count)) d @ take j (drop (nat count) (contents c))
                   @ drop (nat (offset + count) + j) d,
                 count + int j)"
  using assms
proof (induction j arbitrary: d count i)
  case 0
  have stop: "len c \<le> count \<or> n = offset + count"
    using "0.prems"(1,5) by (auto simp: min_def split: if_splits)
  have "c_add count offset = Some (count + offset)"
    using "0.prems" by (simp add: c_add_def c_int_def INT_MIN_def INT_MAX_def)
  then have "peek_loop c d n offset count i = Some (d, count)"
    using stop by (subst peek_loop.simps) auto
  then show ?case by simp
next
  case (Suc j)
  have lt: "count < len c" and sn: "count + offset < n"
    using Suc.prems(1) by (auto simp: min_def split: if_splits)
  have m: "0 < maxlen c" "maxlen c \<le> INT_MAX" "int (length (buffer c)) = maxlen c"
    "len c \<le> maxlen c"
    using Suc.prems(2,3) lt by (auto simp: cb_inv_def)
  have i: "i = (tail c + count) mod maxlen c" using Suc.prems(8) lt by simp
  have ir: "0 \<le> i" "i < maxlen c" using m unfolding i by simp_all
  let ?s = "count + offset"
  let ?v = "buffer c ! nat i"
  let ?d = "d[nat ?s := ?v]"
  let ?i = "(if 1 < len c then (i + 1) mod maxlen c else i)"
  have a1: "c_add count offset = Some ?s" "c_add offset count = Some ?s"
    using Suc.prems sn
    by (simp_all add: c_add_def c_int_def INT_MIN_def INT_MAX_def add.commute[of offset count])
  have a2: "c_add count 1 = Some (count + 1)"
    using Suc.prems sn by (simp add: c_add_def c_int_def INT_MIN_def INT_MAX_def)
  have sl: "nat ?s < length d" using Suc.prems sn by simp
  have st: "store d ?s ?v = Some ?d"
    using Suc.prems sn by (simp add: store_def)
  have ld: "load (buffer c) i = Some ?v"
    using ir m by (simp add: load_def)
  have ni: "(if len c > 1 then next_index i (maxlen c) else Some i) = Some ?i"
    using ir m by (simp add: next_index_Some)
  have unfold: "peek_loop c d n offset count i = peek_loop c ?d n offset (count + 1) ?i"
    using lt sn a1 a2 ld st ni by (subst peek_loop.simps) simp
  have j: "j = nat (min (len c - (count + 1)) (n - offset - (count + 1)))"
    using Suc.prems(1) by (simp add: min_def split: if_splits)
  have b: "0 \<le> count + 1" "offset + (count + 1) \<le> n" "n \<le> int (length ?d)"
    using Suc.prems sn by simp_all
  have i': "count + 1 < len c \<longrightarrow> ?i = (tail c + (count + 1)) mod maxlen c"
  proof
    assume "count + 1 < len c"
    then have "1 < len c" using Suc.prems(3) by simp
    moreover have "((tail c + count) mod maxlen c + 1) mod maxlen c
                     = (tail c + count + 1) mod maxlen c"
      by (rule mod_add_left_eq)
    ultimately show "?i = (tail c + (count + 1)) mod maxlen c"
      unfolding i by (simp add: add.assoc)
  qed
  note IH = Suc.IH[OF j Suc.prems(2) b(1) Suc.prems(4) b(2) Suc.prems(6) b(3) i']
  have v: "?v = contents c ! nat count"
    using contents_nth[OF Suc.prems(3) lt] i by simp
  have e: "nat (offset + (count + 1)) = Suc (nat ?s)" "nat (offset + count) = nat ?s"
    "nat (count + 1) = Suc (nat count)"
    using Suc.prems by (simp_all add: add.commute[of offset count])
  have t: "take (Suc (nat ?s)) ?d = take (nat ?s) d @ [?v]"
    using sl by (simp add: take_Suc_conv_app_nth)
  have dr: "drop (Suc (nat ?s) + j) ?d = drop (nat ?s + Suc j) d"
    by simp
  have "nat count < length (contents c)"
    using lt Suc.prems(3) by (simp add: length_contents)
  then have tk: "take (Suc j) (drop (nat count) (contents c))
                   = ?v # take j (drop (Suc (nat count)) (contents c))"
    unfolding v by (simp add: Cons_nth_drop_Suc[symmetric])
  have "peek_loop c d n offset count i =
          Some (take (nat (offset + (count + 1))) ?d
                  @ take j (drop (nat (count + 1)) (contents c))
                  @ drop (nat (offset + (count + 1)) + j) ?d,
                count + 1 + int j)"
    using unfold IH by simp
  then show ?case
    unfolding e t dr tk by simp
qed

text \<open>
  What \<^verbatim>\<open>circular_buffer_peek\<close> does: on a buffer of positive capacity that satisfies the
  representation invariant, with \<open>0 \<le> offset\<close>, \<open>2 * offset \<le> n\<close>, no overflow in
  \<open>tail + offset\<close> and an array \<open>d\<close> of at least \<open>n\<close> slots that \<^verbatim>\<open>memset\<close> turns into \<open>d0\<close>,
  the call skips the \<open>offset\<close> oldest
  elements, copies the next \<open>k = min (len - offset) (n - 2 * offset)\<close> elements (none when
  that is negative) to the slots \<open>2 * offset, 2 * offset + 1, \<dots>\<close> and returns \<open>offset + k\<close>.
  With \<open>offset = 0\<close> this is the \<open>min len n\<close> oldest elements at the front of the array.
\<close>

lemma peek_copies:
  assumes "cb_inv c" and "0 < maxlen c" and "c_int n" and "0 \<le> offset" and "2 * offset \<le> n"
    and "0 < n" and "n \<le> int (length d)" and "memset d 0 n = Some d0"
    and "tail c + offset \<le> INT_MAX"
  shows "circular_buffer_peek (Some c) (Some d) n offset offset_cb =
           Some (Inr (offset + int (nat (min (len c - offset) (n - 2 * offset)))), Some c,
                 Some (take (nat (2 * offset)) d0
                         @ take (nat (min (len c - offset) (n - 2 * offset)))
                             (drop (nat offset) (contents c))
                         @ drop (nat (2 * offset) + nat (min (len c - offset) (n - 2 * offset))) d0))"
proof -
  let ?j = "nat (min (len c - offset) (n - 2 * offset))"
  have n: "n \<le> INT_MAX" using assms by (simp add: c_int_def)
  have t: "0 \<le> tail c" "tail c < maxlen c" "maxlen c \<le> INT_MAX"
    using assms(1,2) by (auto simp: cb_inv_def)
  have l: "length d0 = length d"
    using assms(8) by (auto simp: memset_def length_memset_bytes split: if_splits)
  have ca: "c_add (tail c) offset = Some (tail c + offset)"
    using t assms(4,9) by (simp add: c_add_def c_int_def INT_MIN_def INT_MAX_def)
  have cr: "c_rem (tail c + offset) (maxlen c) = Some ((tail c + offset) mod maxlen c)"
    using t assms(2,4) by (simp add: c_rem_def smod_nonneg)
  have j: "?j = nat (min (len c - offset) (n - offset - offset))" by (simp add: algebra_simps)
  have "offset + offset \<le> n" "n \<le> int (length d0)" using assms(5,7) l by simp_all
  from peek_loop_run[OF j assms(1,4,4) this(1) n this(2), of "(tail c + offset) mod maxlen c"]
  have "peek_loop c d0 n offset offset ((tail c + offset) mod maxlen c) =
           Some (take (nat (offset + offset)) d0 @ take ?j (drop (nat offset) (contents c))
                   @ drop (nat (offset + offset) + ?j) d0,
                 offset + int ?j)"
    by simp
  moreover have "offset + offset = 2 * offset" by simp
  ultimately show ?thesis
    using assms(6,8) ca cr by (simp add: circular_buffer_peek_def)
qed

text \<open>
  Claim C5 says that peek copies up to \<open>capacity - offset\<close> elements, starting \<open>bufferOffset\<close>
  positions into the queue, to \<open>destination[offset], destination[offset + 1], \<dots>\<close> and
  returns the number copied. The code does otherwise. On the buffer holding \<open>A, B, C\<close> and
  an array of three null slots: with \<open>offset = 0\<close> and \<open>bufferOffset = 1\<close> it copies all of
  \<open>A, B, C\<close> and returns 3, where the claim gives \<open>B, C\<close> and 2; with \<open>offset = 1\<close> and
  \<open>bufferOffset = 0\<close> it starts one position into the queue, writes \<open>B\<close> alone to
  \<open>destination[2]\<close> and returns 2, where the claim puts \<open>A, B\<close> at \<open>destination[1], [2]\<close>.
\<close>

theorem peek_offsets_evaluated:
  "circular_buffer_peek (Some demo_abc) (Some [null_ptr, null_ptr, null_ptr]) 3 0 1
     = Some (Inr 3, Some demo_abc, Some [pA, pB, pC]) \<and>
   circular_buffer_peek (Some demo_abc) (Some [null_ptr, null_ptr, null_ptr]) 3 1 0
     = Some (Inr 2, Some demo_abc, Some [null_ptr, null_ptr, pB])"
  by code_simp

subsection \<open>Peek and the storage\<close>

lemma peek_ring_loop_fields:
  "peek_ring_loop c k n offset count i = Some (c', m) \<Longrightarrow>
     head c' = head c \<and> tail c' = tail c \<and> len c' = len c \<and> maxlen c' = maxlen c \<and>
     length (buffer c') = length (buffer c)"
proof (induction c k n offset count i rule: peek_ring_loop.induct)
  case (1 c k n offset count i)
  show ?case
  proof (cases "count < len c")
    case False
    then have "peek_ring_loop c k n offset count i = Some (c, count)"
      by (subst peek_ring_loop.simps) simp
    then show ?thesis using "1.prems" by simp
  next
    case True
    show ?thesis
    proof (cases "c_add count offset")
      case None
      then have "peek_ring_loop c k n offset count i = None"
        using True by (subst peek_ring_loop.simps) simp
      then show ?thesis using "1.prems" by simp
    next
      case (Some s)
      show ?thesis
      proof (cases "s < n")
        case False
        then have "peek_ring_loop c k n offset count i = Some (c, count)"
          using True Some by (subst peek_ring_loop.simps) simp
        then show ?thesis using "1.prems" by simp
      next
        case sn: True
        have ca: "c_add offset count = Some s"
          using Some by (simp add: c_add_def add.commute[of offset count] split: if_splits)
        obtain v b count1 i1 where
          st: "load (buffer c) i = Some v" "store (buffer c) (k + s) v = Some b"
            "c_add count 1 = Some count1"
            "(if len c > 1 then next_index i (maxlen c) else Some i) = Some i1"
          and rec: "peek_ring_loop (c\<lparr>buffer := b\<rparr>) k n offset count1 i1 = Some (c', m)"
          using "1.prems" True Some sn ca
          by (subst (asm) peek_ring_loop.simps) (auto split: option.splits)
        from "1.IH"[OF True Some sn st(1) ca st(2,3,4) rec]
        have "head c' = head c \<and> tail c' = tail c \<and> len c' = len c \<and> maxlen c' = maxlen c \<and>
              length (buffer c') = length b"
          by simp
        moreover have "length b = length (buffer c)"
          using st(2) by (auto simp: store_def split: if_splits)
        ultimately show ?thesis by simp
      qed
    qed
  qed
qed

lemma peek_at_fields:
  assumes "circular_buffer_peek_at (Some c) data_buf n offset offset_cb = Some (r, s, out)"
  shows "\<exists>c'. s = Some c' \<and> head c' = head c \<and> tail c' = tail c \<and> len c' = len c \<and>
              maxlen c' = maxlen c \<and> ((\<forall>k. data_buf \<noteq> Dest_ring k) \<longrightarrow> c' = c)"
proof (cases data_buf)
  case Dest_null
  then show ?thesis using assms by (simp add: circular_buffer_peek_at_def)
next
  case (Dest_array d)
  then show ?thesis using assms
    by (auto simp: circular_buffer_peek_at_def split: option.splits if_splits)
next
  case (Dest_ring k)
  show ?thesis
  proof (cases "n \<le> 0")
    case True
    then show ?thesis using assms Dest_ring by (auto simp: circular_buffer_peek_at_def)
  next
    case False
    then obtain b0 i c' m where
      l: "peek_ring_loop (c\<lparr>buffer := take (nat k) (buffer c) @ b0\<rparr>) k n offset offset i
            = Some (c', m)"
      and s: "s = Some c'"
      using assms Dest_ring
      by (auto simp: circular_buffer_peek_at_def split: option.splits if_splits)
    from peek_ring_loop_fields[OF l] s Dest_ring show ?thesis by simp
  qed
qed

lemma peek_at_array:
  "circular_buffer_peek (Some c) (Some d) n offset offset_cb = Some (r, s, Some d') \<Longrightarrow>
     circular_buffer_peek_at (Some c) (Dest_array d) n offset offset_cb
       = Some (r, s, Dest_array d')"
  by (auto simp: circular_buffer_peek_def circular_buffer_peek_at_def
      split: option.splits if_splits)

lemma bytes_of_array:
  "\<forall>p\<in>set d. length p = nat sizeof_ptr \<Longrightarrow>
     int (sum_list (map length d)) = sizeof_ptr * int (length d)"
  by (induction d) (simp_all add: sizeof_ptr_def algebra_simps)


text \<open>
  Claim C9, as the code has it. On every call of \<^verbatim>\<open>circular_buffer_peek\<close> that is defined,
  whether it succeeds or fails, \<open>head\<close>, \<open>tail\<close>, \<open>len\<close> and \<open>maxlen\<close> are after the call
  what they were before, and so are the contents of the storage when the destination does
  not point into the storage. A call that fails on its argument checks is defined and
  changes nothing. A call is defined as well when the buffer satisfies the representation
  invariant with a positive capacity, the destination is an array apart from the storage
  with at least \<open>n\<close> slots, \<open>0 < n\<close>, \<open>0 \<le> offset\<close>, \<open>2 * offset \<le> n\<close> and \<open>tail + offset\<close>
  does not overflow; it then succeeds and leaves the buffer as it was.
\<close>

theorem peek_frame_apart:
  "(circular_buffer_peek_at (Some c) data_buf n offset offset_cb = Some (r, s, out) \<longrightarrow>
      (\<exists>c'. s = Some c' \<and> head c' = head c \<and> tail c' = tail c \<and> len c' = len c \<and>
            maxlen c' = maxlen c \<and> ((\<forall>k. data_buf \<noteq> Dest_ring k) \<longrightarrow> c' = c))) \<and>
   (n \<le> 0 \<or> data_buf = Dest_null \<longrightarrow>
      circular_buffer_peek_at (Some c) data_buf n offset offset_cb
        = Some (Inl EINVAL, Some c, data_buf)) \<and>
   (cb_inv c \<and> 0 < maxlen c \<and> c_int n \<and> 0 < n \<and> 0 \<le> offset \<and> 2 * offset \<le> n \<and>
    tail c + offset \<le> INT_MAX \<and> n \<le> int (length d) \<and>
    (\<forall>p\<in>set d. length p = nat sizeof_ptr) \<longrightarrow>
      (\<exists>k d'. circular_buffer_peek_at (Some c) (Dest_array d) n offset offset_cb
                = Some (Inr k, Some c, Dest_array d')))"
proof -
  have A: "\<exists>c'. s = Some c' \<and> head c' = head c \<and> tail c' = tail c \<and> len c' = len c \<and>
            maxlen c' = maxlen c \<and> ((\<forall>k. data_buf \<noteq> Dest_ring k) \<longrightarrow> c' = c)"
    if "circular_buffer_peek_at (Some c) data_buf n offset offset_cb = Some (r, s, out)"
    using peek_at_fields[OF that] .
  have B: "circular_buffer_peek_at (Some c) data_buf n offset offset_cb
        = Some (Inl EINVAL, Some c, data_buf)" if "n \<le> 0 \<or> data_buf = Dest_null"
    using that by (cases data_buf) (auto simp: circular_buffer_peek_at_def)
  have C: "\<exists>k d'. circular_buffer_peek_at (Some c) (Dest_array d) n offset offset_cb
                = Some (Inr k, Some c, Dest_array d')"
    if h: "cb_inv c" "0 < maxlen c" "c_int n" "0 < n" "0 \<le> offset" "2 * offset \<le> n"
      "tail c + offset \<le> INT_MAX" "n \<le> int (length d)"
      "\<forall>p\<in>set d. length p = nat sizeof_ptr"
  proof -
    have "n \<le> int (sum_list (map length d))"
      using bytes_of_array[OF h(9)] h(8) by (simp add: sizeof_ptr_def)
    then have m: "memset d 0 n = Some (memset_bytes d 0 (nat n))"
      using h(4) by (simp add: memset_def)
    from peek_copies[OF h(1,2,3,5,6,4,8) m h(7), of offset_cb]
    obtain k d' where
      "circular_buffer_peek (Some c) (Some d) n offset offset_cb = Some (Inr k, Some c, Some d')"
      by blast
    from peek_at_array[OF this] show ?thesis by blast
  qed
  show ?thesis using A B C by blast
qed

theorem peek_frame_apart_witness:
  "circular_buffer_peek_at (Some demo_abc) (Dest_array [pD, pD, pD]) 3 0 0
     = Some (Inr 3, Some demo_abc, Dest_array [pA, pB, pC]) \<and>
   circular_buffer_peek_at (Some demo_abc) (Dest_array [pD, pD, pD]) 0 0 0
     = Some (Inl EINVAL, Some demo_abc, Dest_array [pD, pD, pD]) \<and>
   cb_inv demo_abc \<and> 0 < maxlen demo_abc \<and> c_int 3 \<and> tail demo_abc + 0 \<le> INT_MAX \<and>
   (3::int) \<le> int (length [pD, pD, pD]) \<and> length pD = nat sizeof_ptr"
proof -
  have a: "circular_buffer_peek_at (Some demo_abc) (Dest_array [pD, pD, pD]) 3 0 0
     = Some (Inr 3, Some demo_abc, Dest_array [pA, pB, pC])"
    by code_simp
  have b: "cb_inv demo_abc" "0 < maxlen demo_abc" "tail demo_abc + 0 \<le> INT_MAX"
    by (simp_all add: cb_inv_def demo_abc_def INT_MAX_def)
  have c: "c_int 3" by (simp add: c_int_def INT_MIN_def INT_MAX_def)
  have d: "(3::int) \<le> int (length [pD, pD, pD])" "\<forall>p\<in>set [pD, pD, pD]. length p = nat sizeof_ptr"
    by (simp_all add: pD_def sizeof_ptr_def)
  have e: "(0::int) \<le> 0 \<or> Dest_array [pD, pD, pD] = Dest_null" by simp
  show ?thesis
    using peek_frame_apart[of demo_abc "Dest_array [pD, pD, pD]" 3 0 0 "Inr 3" "Some demo_abc"
        "Dest_array [pA, pB, pC]" "[pD, pD, pD]"]
      peek_frame_apart[of demo_abc "Dest_array [pD, pD, pD]" 0 0 0 "Inr 3" "Some demo_abc"
        "Dest_array [pA, pB, pC]" "[pD, pD, pD]"]
      a b c d e by simp
qed

text \<open>
  Claim C9 as written fails when the destination is the storage itself: peeking three
  elements of the buffer holding \<open>A, B, C\<close> into its own block clears the first bytes of
  slot 0 and copies every slot onto itself, so the storage holds \<open>0, B, C\<close> after the call.
  And with a destination of one slot the same call writes outside the array: it is not
  defined, and nothing is promised about the buffer.
\<close>

theorem peek_alias_counterexample:
  "circular_buffer_peek_at (Some demo_abc) (Dest_ring 0) 3 0 0
     = Some (Inr 3, Some (demo_abc\<lparr>buffer := [null_ptr, pB, pC]\<rparr>), Dest_ring 0) \<and>
   buffer (demo_abc\<lparr>buffer := [null_ptr, pB, pC]\<rparr>) \<noteq> buffer demo_abc \<and>
   circular_buffer_peek_at (Some demo_abc) (Dest_array [pD]) 3 0 0 = None"
  by code_simp

end
